theory Spec2Isabelle
  imports Main "HOL-Library.Word" "HOL-Library.Multiset"
begin

section \<open>The sparse DWARF CFA register stack of \<open>Source/dwarf_cfa_stack.h\<close>\<close>

text \<open>
  The class template \<open>dwarf_cfa_stack<T, S>\<close> keeps a pool of \<open>S\<close> statically
  allocated register entries, a free list threading the unused ones, and a table of
  6 rows of 15 bucket heads. The embedding below follows the header function by
  function. Pointers into \<open>_entries\<close> are array indices, every dereference checks the
  bounds of the array it goes into, and the two chain walks are the loops of the source,
  which return nothing on a cyclic chain.
\<close>

subsection \<open>Data model\<close>

text \<open>\<open>dwarf_cfa_reg_rule_t\<close>: the enumeration has one member.\<close>

datatype dwarf_cfa_reg_rule_t = DWARF_CFA_REG_RULE_OFFSET

text \<open>
  A \<open>dwarf_cfa_reg_entry_t *\<close>: either \<open>NULL\<close> or the address of \<open>_entries[i]\<close>.
  \<open>Ptr i\<close> may be formed for any \<open>i\<close> (the constructor forms \<open>&_entries[i+1]\<close>);
  only dereferencing it is checked.
\<close>

datatype ptr = NULL | Ptr nat

text \<open>
  \<open>struct dwarf_cfa_reg_entry\<close>. The fields \<open>value\<close> and \<open>next\<close> are called
  \<open>val\<close> and \<open>nxt\<close> here, the source's names being reserved words.
\<close>

record 'v dwarf_cfa_reg_entry =
  regnum :: "32 word"
  rule :: dwarf_cfa_reg_rule_t
  val :: 'v
  nxt :: ptr

text \<open>
  The members of the class: \<open>_table_stack[6][15]\<close>, \<open>_table_pos\<close>, \<open>_free_list\<close>
  and \<open>_entries[S]\<close>. The capacity \<open>S\<close> is the length of \<open>entries\<close>.
\<close>

record 'v dwarf_cfa_stack =
  table_stack :: "ptr list list"
  table_pos :: nat
  free_list :: ptr
  entries :: "'v dwarf_cfa_reg_entry list"

text \<open>An access outside the array it indexes.\<close>

datatype fault = OutOfBounds

text \<open>The dimensions of \<open>_table_stack\<close>.\<close>

definition table_rows :: nat where
  "table_rows = 6"

definition table_buckets :: nat where
  "table_buckets = 15"

text \<open>
  \<open>size_t\<close> arithmetic (64 bits): the subtraction \<open>a - b\<close> wraps around below zero.
\<close>

definition SIZE_MAX :: nat where
  "SIZE_MAX = 2 ^ 64 - 1"

definition size_sub :: "nat \<Rightarrow> nat \<Rightarrow> nat" where
  "size_sub a b = (if b \<le> a then a - b else a + (SIZE_MAX + 1) - b)"

subsection \<open>The constructor\<close>

text \<open>
  \<open>for (size_t i = 0; i < S; i++) _entries[i].next = &_entries[i+1];\<close>
  The loop only writes \<open>_entries[i]\<close> with \<open>i < S\<close>.
\<close>

function init_free_list :: "nat \<Rightarrow> 'v dwarf_cfa_reg_entry list \<Rightarrow> 'v dwarf_cfa_reg_entry list" where
  "init_free_list i es =
     (if i < length es
      then init_free_list (i + 1) (es[i := (es ! i)\<lparr>nxt := Ptr (i + 1)\<rparr>])
      else es)"
  by pat_completeness auto
termination
  by (relation "measure (\<lambda>(i, es). length es - i)") auto

declare init_free_list.simps [simp del]

text \<open>
  The constructor runs on the uninitialised storage of the object: \<open>raw\<close> is what
  \<open>_entries\<close> holds then, and \<open>S = length raw\<close>. After the loop it writes
  \<open>_entries[S-1].next = NULL\<close>, where \<open>S-1\<close> is computed in \<open>size_t\<close>, sets
  \<open>_free_list = &_entries[0]\<close> and \<open>_table_pos = 0\<close>, and zero-fills \<open>_table_stack\<close>.
\<close>

definition dwarf_cfa_stack_ctor :: "'v dwarf_cfa_reg_entry list \<Rightarrow> fault + 'v dwarf_cfa_stack" where
  "dwarf_cfa_stack_ctor raw =
     (let es = init_free_list 0 raw;
          l = size_sub (length raw) 1
      in if length es \<le> l then Inl OutOfBounds
         else Inr \<lparr>table_stack = replicate table_rows (replicate table_buckets NULL),
                   table_pos = 0,
                   free_list = Ptr 0,
                   entries = es[l := (es ! l)\<lparr>nxt := NULL\<rparr>]\<rparr>)"

subsection \<open>\<open>add_register\<close>\<close>

text \<open>
  How the search loop of \<open>add_register\<close> ends: at an entry of the chain that already
  holds the register (the early \<open>return true\<close> follows), or with \<open>parent\<close> at the last
  entry of the chain, \<open>NULL\<close> when the bucket is empty.
\<close>

datatype walk_result = Existing nat | Parent ptr

text \<open>
  \<open>for (parent = _table_stack[_table_pos][bucket]; parent != NULL; parent = parent->next)\<close>
  with its two exits. The loop has no bound of its own: on a cyclic chain without the
  register it runs forever, and the function has no value.
\<close>

partial_function (option) add_register_walk ::
  "'v dwarf_cfa_reg_entry list \<Rightarrow> 32 word \<Rightarrow> ptr \<Rightarrow> (fault + walk_result) option" where
  "add_register_walk es rn parent =
     (case parent of
        NULL \<Rightarrow> Some (Inr (Parent NULL))
      | Ptr i \<Rightarrow>
          if length es \<le> i then Some (Inl OutOfBounds)
          else if regnum (es ! i) = rn then Some (Inr (Existing i))
          else if nxt (es ! i) = NULL then Some (Inr (Parent parent))
          else add_register_walk es rn (nxt (es ! i)))"

text \<open>\<open>regnum % (sizeof(_table_stack[_table_pos]) / sizeof(_table_stack[_table_pos][0]))\<close>\<close>

definition bucket_of :: "32 word \<Rightarrow> nat" where
  "bucket_of rn = unat rn mod table_buckets"

text \<open>
  \<open>add_register\<close>: the result is the returned flag and the object after the call. An
  existing entry is overwritten in place. Otherwise the head of the free list is taken
  (failure when there is none), filled in, and linked behind \<open>parent\<close> or installed as
  the head of the bucket.
\<close>

definition add_register ::
  "'v dwarf_cfa_stack \<Rightarrow> 32 word \<Rightarrow> dwarf_cfa_reg_rule_t \<Rightarrow> 'v \<Rightarrow> (fault + bool \<times> 'v dwarf_cfa_stack) option" where
  "add_register s rn rl v =
     (if table_rows \<le> table_pos s then Some (Inl OutOfBounds)
      else
        let bucket = bucket_of rn in
        case add_register_walk (entries s) rn (table_stack s ! table_pos s ! bucket) of
          None \<Rightarrow> None
        | Some (Inl f) \<Rightarrow> Some (Inl f)
        | Some (Inr (Existing i)) \<Rightarrow>
            Some (Inr (True, s\<lparr>entries := (entries s)[i := (entries s ! i)\<lparr>rule := rl, val := v\<rparr>]\<rparr>))
        | Some (Inr (Parent parent)) \<Rightarrow>
            (case free_list s of
               NULL \<Rightarrow> Some (Inr (False, s))
             | Ptr e \<Rightarrow>
                 if length (entries s) \<le> e then Some (Inl OutOfBounds)
                 else
                   let s1 = s\<lparr>free_list := nxt (entries s ! e)\<rparr>;
                       s2 = s1\<lparr>entries := (entries s1)[e := \<lparr>regnum = rn, rule = rl, val = v, nxt = NULL\<rparr>]\<rparr>
                   in (case parent of
                         NULL \<Rightarrow>
                           Some (Inr (True, s2\<lparr>table_stack := (table_stack s2)
                             [table_pos s2 := (table_stack s2 ! table_pos s2)[bucket := Ptr e]]\<rparr>))
                       | Ptr p \<Rightarrow>
                           if length (entries s2) \<le> p then Some (Inl OutOfBounds)
                           else Some (Inr (True, s2\<lparr>entries := (entries s2)[p := (entries s2 ! p)\<lparr>nxt := Ptr e\<rparr>]\<rparr>)))))"

subsection \<open>\<open>get_register_rule\<close>\<close>

text \<open>
  \<open>for (entry = _table_stack[_table_pos][bucket]; entry != NULL; entry = entry->next)\<close>:
  the result is what is stored through the two output pointers, \<open>None\<close> for the
  \<open>return false\<close> after the loop.
\<close>

partial_function (option) get_register_rule_walk ::
  "'v dwarf_cfa_reg_entry list \<Rightarrow> 32 word \<Rightarrow> ptr \<Rightarrow> (fault + (dwarf_cfa_reg_rule_t \<times> 'v) option) option" where
  "get_register_rule_walk es rn entry =
     (case entry of
        NULL \<Rightarrow> Some (Inr None)
      | Ptr i \<Rightarrow>
          if length es \<le> i then Some (Inl OutOfBounds)
          else if regnum (es ! i) \<noteq> rn then get_register_rule_walk es rn (nxt (es ! i))
          else Some (Inr (Some (rule (es ! i), val (es ! i)))))"

text \<open>
  \<open>get_register_rule\<close> is not a \<open>const\<close> member, so the object after the call is
  part of the result.
\<close>

definition get_register_rule ::
  "'v dwarf_cfa_stack \<Rightarrow> 32 word \<Rightarrow> (fault + (dwarf_cfa_reg_rule_t \<times> 'v) option \<times> 'v dwarf_cfa_stack) option" where
  "get_register_rule s rn =
     (if table_rows \<le> table_pos s then Some (Inl OutOfBounds)
      else
        let bucket = bucket_of rn in
        case get_register_rule_walk (entries s) rn (table_stack s ! table_pos s ! bucket) of
          None \<Rightarrow> None
        | Some (Inl f) \<Rightarrow> Some (Inl f)
        | Some (Inr r) \<Rightarrow> Some (Inr (r, s)))"

declare add_register_walk.simps [code]

declare get_register_rule_walk.simps [code]

section \<open>Chains, the abstraction of an object, and its reachable states\<close>

subsection \<open>Linked chains\<close>

text \<open>
  \<open>is_chain es p xs\<close>: following \<open>next\<close> from the pointer \<open>p\<close> visits exactly the
  entries \<open>xs\<close>, in this order, all inside the array, and then reaches \<open>NULL\<close>.
\<close>

fun is_chain :: "'v dwarf_cfa_reg_entry list \<Rightarrow> ptr \<Rightarrow> nat list \<Rightarrow> bool" where
  "is_chain es p [] = (p = NULL)"
| "is_chain es p (i # js) = (p = Ptr i \<and> i < length es \<and> is_chain es (nxt (es ! i)) js)"

text \<open>
  The entries met when following at most \<open>n\<close> links from \<open>p\<close>. With \<open>n\<close> the
  capacity this computes the whole of a chain that visits no entry twice.
\<close>

fun chain_list :: "'v dwarf_cfa_reg_entry list \<Rightarrow> nat \<Rightarrow> ptr \<Rightarrow> nat list" where
  "chain_list es 0 p = []"
| "chain_list es (Suc n) NULL = []"
| "chain_list es (Suc n) (Ptr i) = (if i < length es then i # chain_list es n (nxt (es ! i)) else [])"

text \<open>The first entry among \<open>xs\<close> that holds register \<open>rn\<close>, and its rule and value.\<close>

definition chain_find :: "'v dwarf_cfa_reg_entry list \<Rightarrow> 32 word \<Rightarrow> nat list \<Rightarrow> nat option" where
  "chain_find es rn xs = find (\<lambda>i. regnum (es ! i) = rn) xs"

definition chain_lookup ::
  "'v dwarf_cfa_reg_entry list \<Rightarrow> 32 word \<Rightarrow> nat list \<Rightarrow> (dwarf_cfa_reg_rule_t \<times> 'v) option" where
  "chain_lookup es rn xs = map_option (\<lambda>i. (rule (es ! i), val (es ! i))) (chain_find es rn xs)"

subsection \<open>What an object holds\<close>

text \<open>
  The entries on the free list, the entries of bucket \<open>b\<close> of the active row, all
  entries of the active row, and the binding the active row has for a register.
\<close>

definition free_entries :: "'v dwarf_cfa_stack \<Rightarrow> nat list" where
  "free_entries s = chain_list (entries s) (length (entries s)) (free_list s)"

definition bucket_entries :: "'v dwarf_cfa_stack \<Rightarrow> nat \<Rightarrow> nat list" where
  "bucket_entries s b = chain_list (entries s) (length (entries s)) (table_stack s ! table_pos s ! b)"

definition row_entries :: "'v dwarf_cfa_stack \<Rightarrow> nat list" where
  "row_entries s = concat (map (bucket_entries s) [0..<table_buckets])"

definition lookup :: "'v dwarf_cfa_stack \<Rightarrow> 32 word \<Rightarrow> (dwarf_cfa_reg_rule_t \<times> 'v) option" where
  "lookup s rn = chain_lookup (entries s) rn (row_entries s)"

subsection \<open>The structural invariant\<close>

text \<open>
  \<open>stack_inv s fl ch\<close>: the table has its 6 by 15 shape with row 0 active and the
  other rows empty; \<open>fl\<close> is the free list and \<open>ch ! b\<close> the chain of bucket \<open>b\<close>;
  together they hold every index of the pool exactly once; every entry of a bucket
  belongs there by its register number, and no bucket holds a register twice.
\<close>

definition stack_inv :: "'v dwarf_cfa_stack \<Rightarrow> nat list \<Rightarrow> nat list list \<Rightarrow> bool" where
  "stack_inv s fl ch \<longleftrightarrow>
     table_pos s = 0 \<and>
     length (table_stack s) = table_rows \<and>
     (\<forall>r<table_rows. length (table_stack s ! r) = table_buckets) \<and>
     (\<forall>r b. 0 < r \<and> r < table_rows \<and> b < table_buckets \<longrightarrow> table_stack s ! r ! b = NULL) \<and>
     length ch = table_buckets \<and>
     is_chain (entries s) (free_list s) fl \<and>
     (\<forall>b<table_buckets. is_chain (entries s) (table_stack s ! 0 ! b) (ch ! b)) \<and>
     mset (fl @ concat ch) = mset [0..<length (entries s)] \<and>
     (\<forall>b<table_buckets. \<forall>i\<in>set (ch ! b). bucket_of (regnum (entries s ! i)) = b) \<and>
     (\<forall>b<table_buckets. distinct (map (\<lambda>i. regnum (entries s ! i)) (ch ! b)))"

definition well_formed :: "'v dwarf_cfa_stack \<Rightarrow> bool" where
  "well_formed s \<longleftrightarrow> stack_inv s (free_entries s) (map (bucket_entries s) [0..<table_buckets])"

subsection \<open>Reachable states and call sequences\<close>

text \<open>
  The states of an object: what the constructor returns, and what a returning call of
  \<open>add_register\<close> or \<open>get_register_rule\<close> leaves behind.
\<close>

inductive reachable :: "'v dwarf_cfa_stack \<Rightarrow> bool" where
  constructed: "dwarf_cfa_stack_ctor raw = Inr s \<Longrightarrow> reachable s"
| added: "reachable s \<Longrightarrow> add_register s rn rl v = Some (Inr (ok, s')) \<Longrightarrow> reachable s'"
| queried: "reachable s \<Longrightarrow> get_register_rule s rn = Some (Inr (res, s')) \<Longrightarrow> reachable s'"

text \<open>
  A caller issuing \<open>add_register\<close> calls in order: the returned flags, and the object
  after the last call.
\<close>

fun add_registers ::
  "'v dwarf_cfa_stack \<Rightarrow> (32 word \<times> dwarf_cfa_reg_rule_t \<times> 'v) list \<Rightarrow>
   (fault + bool list \<times> 'v dwarf_cfa_stack) option" where
  "add_registers s [] = Some (Inr ([], s))"
| "add_registers s ((rn, rl, v) # calls) =
     (case add_register s rn rl v of
        None \<Rightarrow> None
      | Some (Inl f) \<Rightarrow> Some (Inl f)
      | Some (Inr (ok, s')) \<Rightarrow>
          (case add_registers s' calls of
             None \<Rightarrow> None
           | Some (Inl f) \<Rightarrow> Some (Inl f)
           | Some (Inr (oks, s'')) \<Rightarrow> Some (Inr (ok # oks, s''))))"

text \<open>The rule and value of the most recent call for register \<open>rn\<close> in a sequence.\<close>

fun last_added ::
  "(32 word \<times> dwarf_cfa_reg_rule_t \<times> 'v) list \<Rightarrow> 32 word \<Rightarrow> (dwarf_cfa_reg_rule_t \<times> 'v) option" where
  "last_added [] rn = None"
| "last_added ((rn', rl, v) # calls) rn =
     (case last_added calls rn of
        Some x \<Rightarrow> Some x
      | None \<Rightarrow> if rn' = rn then Some (rl, v) else None)"

subsection \<open>The two loops with a step budget\<close>

text \<open>
  The loops of \<open>add_register\<close> and \<open>get_register_rule\<close> again, giving up (\<open>None\<close>)
  when they would visit more than \<open>n\<close> entries. They serve to count chain steps.
\<close>

fun add_register_walk_fuel ::
  "nat \<Rightarrow> 'v dwarf_cfa_reg_entry list \<Rightarrow> 32 word \<Rightarrow> ptr \<Rightarrow> (fault + walk_result) option" where
  "add_register_walk_fuel n es rn NULL = Some (Inr (Parent NULL))"
| "add_register_walk_fuel 0 es rn (Ptr i) = None"
| "add_register_walk_fuel (Suc n) es rn (Ptr i) =
     (if length es \<le> i then Some (Inl OutOfBounds)
      else if regnum (es ! i) = rn then Some (Inr (Existing i))
      else if nxt (es ! i) = NULL then Some (Inr (Parent (Ptr i)))
      else add_register_walk_fuel n es rn (nxt (es ! i)))"

fun get_register_rule_walk_fuel ::
  "nat \<Rightarrow> 'v dwarf_cfa_reg_entry list \<Rightarrow> 32 word \<Rightarrow> ptr \<Rightarrow>
   (fault + (dwarf_cfa_reg_rule_t \<times> 'v) option) option" where
  "get_register_rule_walk_fuel n es rn NULL = Some (Inr None)"
| "get_register_rule_walk_fuel 0 es rn (Ptr i) = None"
| "get_register_rule_walk_fuel (Suc n) es rn (Ptr i) =
     (if length es \<le> i then Some (Inl OutOfBounds)
      else if regnum (es ! i) \<noteq> rn then get_register_rule_walk_fuel n es rn (nxt (es ! i))
      else Some (Inr (Some (rule (es ! i), val (es ! i)))))"

subsection \<open>A pool of capacity 2\<close>

text \<open>
  The scenario of the specification: a pool of two entries with arbitrary initial
  contents, and the states after the constructor, after \<open>add_register(5, OFFSET, 8)\<close>
  and after \<open>add_register(20, OFFSET, 16)\<close>, which collides with register 5 in bucket 5.
\<close>

definition example_raw :: "int dwarf_cfa_reg_entry list" where
  "example_raw =
     [\<lparr>regnum = 77, rule = DWARF_CFA_REG_RULE_OFFSET, val = - 1, nxt = Ptr 9\<rparr>,
      \<lparr>regnum = 77, rule = DWARF_CFA_REG_RULE_OFFSET, val = - 1, nxt = Ptr 9\<rparr>]"

definition example_s0 :: "int dwarf_cfa_stack" where
  "example_s0 =
     \<lparr>table_stack = replicate 6 (replicate 15 NULL), table_pos = 0, free_list = Ptr 0,
      entries =
        [\<lparr>regnum = 77, rule = DWARF_CFA_REG_RULE_OFFSET, val = - 1, nxt = Ptr 1\<rparr>,
         \<lparr>regnum = 77, rule = DWARF_CFA_REG_RULE_OFFSET, val = - 1, nxt = NULL\<rparr>]\<rparr>"

definition example_s1 :: "int dwarf_cfa_stack" where
  "example_s1 =
     \<lparr>table_stack = (replicate 6 (replicate 15 NULL))[0 := (replicate 15 NULL)[5 := Ptr 0]],
      table_pos = 0, free_list = Ptr 1,
      entries =
        [\<lparr>regnum = 5, rule = DWARF_CFA_REG_RULE_OFFSET, val = 8, nxt = NULL\<rparr>,
         \<lparr>regnum = 77, rule = DWARF_CFA_REG_RULE_OFFSET, val = - 1, nxt = NULL\<rparr>]\<rparr>"

definition example_s2 :: "int dwarf_cfa_stack" where
  "example_s2 =
     \<lparr>table_stack = (replicate 6 (replicate 15 NULL))[0 := (replicate 15 NULL)[5 := Ptr 0]],
      table_pos = 0, free_list = NULL,
      entries =
        [\<lparr>regnum = 5, rule = DWARF_CFA_REG_RULE_OFFSET, val = 8, nxt = Ptr 1\<rparr>,
         \<lparr>regnum = 20, rule = DWARF_CFA_REG_RULE_OFFSET, val = 16, nxt = NULL\<rparr>]\<rparr>"

definition example_calls :: "(32 word \<times> dwarf_cfa_reg_rule_t \<times> int) list" where
  "example_calls = [(5, DWARF_CFA_REG_RULE_OFFSET, 8), (20, DWARF_CFA_REG_RULE_OFFSET, 16)]"

section \<open>Supporting lemmas\<close>

subsection \<open>Chains and the two search loops\<close>

lemma chain_same_links:
  "length es' = length es \<Longrightarrow> \<forall>j\<in>set xs. nxt (es' ! j) = nxt (es ! j) \<Longrightarrow> is_chain es' p xs = is_chain es p xs"
  by (induction xs arbitrary: p) auto

lemma chain_update_other:
  "is_chain es p xs \<Longrightarrow> i \<notin> set xs \<Longrightarrow> is_chain (es[i := x]) p xs"
proof -
  assume c: "is_chain es p xs" and i: "i \<notin> set xs"
  from i have "\<forall>j\<in>set xs. nxt (es[i := x] ! j) = nxt (es ! j)" by (metis nth_list_update_neq)
  with c show ?thesis using chain_same_links [of "es[i := x]" es xs p] by simp
qed

lemma chain_bounds: "is_chain es p xs \<Longrightarrow> \<forall>i\<in>set xs. i < length es"
  by (induction xs arbitrary: p) auto

lemma chain_unique: "is_chain es p xs \<Longrightarrow> is_chain es p ys \<Longrightarrow> xs = ys"
proof (induction xs arbitrary: p ys)
  case Nil
  then show ?case by (cases ys) auto
next
  case (Cons i js)
  then show ?case by (cases ys) auto
qed

lemma chain_append_last:
  "is_chain es p (ys @ [l]) \<Longrightarrow> l \<notin> set ys \<Longrightarrow> e \<notin> set ys \<Longrightarrow> e \<noteq> l \<Longrightarrow> e < length es \<Longrightarrow>
   nxt (es ! e) = NULL \<Longrightarrow> is_chain (es[l := (es ! l)\<lparr>nxt := Ptr e\<rparr>]) p (ys @ [l, e])"
  by (induction ys arbitrary: p) auto

lemma add_register_walk_chain:
  "is_chain es p xs \<Longrightarrow>
   add_register_walk es rn p =
     Some (Inr (case chain_find es rn xs of
                  Some i \<Rightarrow> Existing i
                | None \<Rightarrow> Parent (if xs = [] then NULL else Ptr (last xs))))"
proof (induction xs arbitrary: p)
  case Nil
  then show ?case by (simp add: add_register_walk.simps chain_find_def)
next
  case (Cons i js)
  note IH = Cons.IH
  from Cons.prems have p: "p = Ptr i" and i: "i < length es" and rest: "is_chain es (nxt (es ! i)) js"
    by auto
  show ?case
  proof (cases "regnum (es ! i) = rn")
    case True
    then show ?thesis using p i by (subst add_register_walk.simps) (simp add: chain_find_def)
  next
    case False
    show ?thesis
    proof (cases js)
      case Nil
      with rest have "nxt (es ! i) = NULL" by simp
      then show ?thesis using p i False Nil
        by (subst add_register_walk.simps) (simp add: chain_find_def)
    next
      case (Cons k ks)
      then have ne: "js \<noteq> []" by simp
      from Cons rest have "nxt (es ! i) \<noteq> NULL" by auto
      then show ?thesis using p i False ne IH [OF rest]
        by (subst add_register_walk.simps) (simp add: chain_find_def split: option.splits)
    qed
  qed
qed

lemma get_register_rule_walk_chain:
  "is_chain es p xs \<Longrightarrow> get_register_rule_walk es rn p = Some (Inr (chain_lookup es rn xs))"
proof (induction xs arbitrary: p)
  case Nil
  then show ?case by (simp add: get_register_rule_walk.simps chain_lookup_def chain_find_def)
next
  case (Cons i js)
  then show ?case
    by (subst get_register_rule_walk.simps) (auto simp: chain_lookup_def chain_find_def)
qed

subsection \<open>Lists of chains\<close>

lemma mset_concat_snoc:
  "b < length ch \<Longrightarrow> mset (concat (ch[b := ch ! b @ [e]])) = add_mset e (mset (concat ch))"
proof (induction ch arbitrary: b)
  case Nil
  then show ?case by simp
next
  case (Cons xs ch)
  then show ?case by (cases b) auto
qed

lemma nth_subset_concat: "b < length ch \<Longrightarrow> set (ch ! b) \<subseteq> set (concat ch)"
  by (induction ch arbitrary: b) (auto simp: nth_Cons split: nat.splits)

lemma distinct_concat_disjoint_less:
  "distinct (concat ch) \<Longrightarrow> b < b' \<Longrightarrow> b' < length ch \<Longrightarrow> set (ch ! b) \<inter> set (ch ! b') = {}"
proof (induction ch arbitrary: b b')
  case Nil
  then show ?case by simp
next
  case (Cons xs ch)
  show ?case
  proof (cases b)
    case 0
    with Cons.prems obtain k where k: "b' = Suc k" "k < length ch" by (cases b') auto
    from Cons.prems have "set xs \<inter> set (concat ch) = {}" by auto
    with nth_subset_concat [OF k(2)] show ?thesis using 0 k by auto
  next
    case (Suc j)
    with Cons.prems obtain k where k: "b' = Suc k" "j < k" "k < length ch" by (cases b') auto
    from Cons.prems have "distinct (concat ch)" by simp
    from Cons.IH [OF this k(2) k(3)] show ?thesis using Suc k by simp
  qed
qed

lemma distinct_concat_disjoint:
  assumes "distinct (concat ch)" "b < length ch" "b' < length ch" "b \<noteq> b'"
  shows "set (ch ! b) \<inter> set (ch ! b') = {}"
proof (cases "b < b'")
  case True
  then show ?thesis using assms distinct_concat_disjoint_less by blast
next
  case False
  with assms have "b' < b" by simp
  then have "set (ch ! b') \<inter> set (ch ! b) = {}"
    using assms distinct_concat_disjoint_less by blast
  then show ?thesis by blast
qed

lemma distinct_concat_nth: "distinct (concat ch) \<Longrightarrow> b < length ch \<Longrightarrow> distinct (ch ! b)"
  by (induction ch arbitrary: b) (auto simp: nth_Cons split: nat.splits)

lemma find_append_cases:
  "find P (xs @ ys) = (case find P xs of None \<Rightarrow> find P ys | Some x \<Rightarrow> Some x)"
  by (induction xs) auto

lemma find_concat_bucket:
  "b < length ch \<Longrightarrow> \<forall>b'<length ch. b' \<noteq> b \<longrightarrow> (\<forall>i\<in>set (ch ! b'). \<not> P i) \<Longrightarrow>
   find P (concat ch) = find P (ch ! b)"
proof (induction ch arbitrary: b)
  case Nil
  then show ?case by simp
next
  case (Cons xs ch)
  show ?case
  proof (cases b)
    case 0
    have "\<forall>i\<in>set (concat ch). \<not> P i"
    proof
      fix i assume "i \<in> set (concat ch)"
      then obtain ys where "ys \<in> set ch" "i \<in> set ys" by auto
      then obtain k where "k < length ch" "ch ! k = ys" by (auto simp: in_set_conv_nth)
      with Cons.prems(2) [rule_format, of "Suc k"] 0 \<open>i \<in> set ys\<close> show "\<not> P i" by auto
    qed
    then have "find P (concat ch) = None" unfolding find_None_iff by blast
    then show ?thesis using 0 by (simp add: find_append_cases split: option.splits)
  next
    case (Suc j)
    from Cons.prems(2) [rule_format, of 0] Suc have "\<forall>i\<in>set xs. \<not> P i" by auto
    then have "find P xs = None" by (simp add: find_None_iff)
    moreover have "find P (concat ch) = find P (ch ! j)"
    proof (rule Cons.IH)
      show "j < length ch" using Cons.prems(1) Suc by simp
      show "\<forall>b'<length ch. b' \<noteq> j \<longrightarrow> (\<forall>i\<in>set (ch ! b'). \<not> P i)"
        using Cons.prems(2) [rule_format, of "Suc b'" for b'] Suc by auto
    qed
    ultimately show ?thesis using Suc by (simp add: find_append_cases)
  qed
qed

subsection \<open>Consequences of the invariant\<close>

lemma stack_invD:
  assumes "stack_inv s fl ch"
  shows "table_pos s = 0"
    and "length (table_stack s) = table_rows"
    and "\<And>r. r < table_rows \<Longrightarrow> length (table_stack s ! r) = table_buckets"
    and "\<And>r b. 0 < r \<Longrightarrow> r < table_rows \<Longrightarrow> b < table_buckets \<Longrightarrow> table_stack s ! r ! b = NULL"
    and "length ch = table_buckets"
    and "is_chain (entries s) (free_list s) fl"
    and "\<And>b. b < table_buckets \<Longrightarrow> is_chain (entries s) (table_stack s ! 0 ! b) (ch ! b)"
    and "mset (fl @ concat ch) = mset [0..<length (entries s)]"
    and "\<And>b i. b < table_buckets \<Longrightarrow> i \<in> set (ch ! b) \<Longrightarrow> bucket_of (regnum (entries s ! i)) = b"
    and "\<And>b. b < table_buckets \<Longrightarrow> distinct (map (\<lambda>i. regnum (entries s ! i)) (ch ! b))"
  using assms unfolding stack_inv_def by blast+

lemma bucket_of_less: "bucket_of rn < table_buckets"
  by (simp add: bucket_of_def table_buckets_def)

lemma stack_inv_distinct: "stack_inv s fl ch \<Longrightarrow> distinct (fl @ concat ch)"
proof -
  assume "stack_inv s fl ch"
  then have "mset (fl @ concat ch) = mset [0..<length (entries s)]" by (simp add: stack_inv_def)
  from mset_eq_imp_distinct_iff [OF this] show ?thesis by simp
qed

lemma stack_inv_set: "stack_inv s fl ch \<Longrightarrow> set (fl @ concat ch) = {..<length (entries s)}"
proof -
  assume "stack_inv s fl ch"
  then have "mset (fl @ concat ch) = mset [0..<length (entries s)]" by (simp add: stack_inv_def)
  from mset_eq_setD [OF this] show ?thesis by (simp add: lessThan_atLeast0)
qed

lemma stack_inv_length: "stack_inv s fl ch \<Longrightarrow> length fl + length (concat ch) = length (entries s)"
proof -
  assume "stack_inv s fl ch"
  then have "mset (fl @ concat ch) = mset [0..<length (entries s)]" by (simp add: stack_inv_def)
  from mset_eq_length [OF this] show ?thesis by simp
qed

lemma stack_inv_bucket_subset:
  "stack_inv s fl ch \<Longrightarrow> b < table_buckets \<Longrightarrow> set (ch ! b) \<subseteq> set (concat ch)"
  using nth_subset_concat [of b ch] stack_invD(5) [of s fl ch] by simp

lemma stack_inv_free_bucket_disjoint:
  assumes "stack_inv s fl ch" "b < table_buckets"
  shows "set fl \<inter> set (ch ! b) = {}"
  using stack_inv_distinct [OF assms(1)] stack_inv_bucket_subset [OF assms] by auto

lemma stack_inv_buckets_disjoint:
  assumes "stack_inv s fl ch" "b < table_buckets" "b' < table_buckets" "b \<noteq> b'"
  shows "set (ch ! b) \<inter> set (ch ! b') = {}"
proof -
  from stack_inv_distinct [OF assms(1)] have "distinct (concat ch)" by simp
  moreover from assms have "b < length ch" "b' < length ch" by (simp_all add: stack_inv_def)
  ultimately show ?thesis using assms(4) by (rule distinct_concat_disjoint)
qed

lemma row_lookup_bucket:
  assumes "stack_inv s fl ch"
  shows "chain_find (entries s) rn (concat ch) = chain_find (entries s) rn (ch ! bucket_of rn)"
  unfolding chain_find_def
proof (rule find_concat_bucket)
  show "bucket_of rn < length ch" using assms bucket_of_less by (simp add: stack_inv_def)
  show "\<forall>b'<length ch. b' \<noteq> bucket_of rn \<longrightarrow> (\<forall>i\<in>set (ch ! b'). regnum (entries s ! i) \<noteq> rn)"
    using assms by (auto simp: stack_inv_def)
qed

lemma get_register_rule_inv:
  assumes "stack_inv s fl ch"
  shows "get_register_rule s rn = Some (Inr (chain_lookup (entries s) rn (concat ch), s))"
proof -
  have "is_chain (entries s) (table_stack s ! 0 ! bucket_of rn) (ch ! bucket_of rn)"
    using assms bucket_of_less by (simp add: stack_inv_def)
  from get_register_rule_walk_chain [OF this, of rn]
  show ?thesis using assms row_lookup_bucket [OF assms, of rn]
    by (simp add: get_register_rule_def stack_inv_def table_rows_def chain_lookup_def)
qed

lemma chain_find_SomeD:
  "chain_find es rn xs = Some i \<Longrightarrow> i \<in> set xs \<and> regnum (es ! i) = rn"
  by (auto simp: chain_find_def find_Some_iff)

lemma chain_find_None_iff:
  "chain_find es rn xs = None \<longleftrightarrow> rn \<notin> (\<lambda>i. regnum (es ! i)) ` set xs"
  by (auto simp: chain_find_def find_None_iff)

lemma chain_find_cong:
  "\<forall>i\<in>set xs. regnum (es' ! i) = regnum (es ! i) \<Longrightarrow> chain_find es' rn xs = chain_find es rn xs"
  unfolding chain_find_def by (induction xs) auto

subsection \<open>\<open>add_register\<close> preserves the invariant\<close>

lemma add_register_existing:
  assumes inv: "stack_inv s fl ch"
    and found: "chain_find (entries s) rn (concat ch) = Some i"
  shows "add_register s rn rl v =
           Some (Inr (True, s\<lparr>entries := (entries s)[i := (entries s ! i)\<lparr>rule := rl, val := v\<rparr>]\<rparr>))"
proof -
  have "is_chain (entries s) (table_stack s ! 0 ! bucket_of rn) (ch ! bucket_of rn)"
    using stack_invD(7) [OF inv bucket_of_less] .
  from add_register_walk_chain [OF this, of rn]
  show ?thesis using found row_lookup_bucket [OF inv, of rn] stack_invD(1) [OF inv]
    by (simp add: add_register_def table_rows_def)
qed

lemma stack_inv_update_in_place:
  assumes inv: "stack_inv s fl ch"
  shows "stack_inv (s\<lparr>entries := (entries s)[i := (entries s ! i)\<lparr>rule := rl, val := v\<rparr>]\<rparr>) fl ch"
proof -
  let ?es = "entries s"
  let ?es' = "?es[i := (?es ! i)\<lparr>rule := rl, val := v\<rparr>]"
  have nx: "nxt (?es' ! j) = nxt (?es ! j)" for j
    by (cases "j = i"; cases "i < length ?es") (simp_all add: list_update_beyond)
  have rg: "regnum (?es' ! j) = regnum (?es ! j)" for j
    by (cases "j = i"; cases "i < length ?es") (simp_all add: list_update_beyond)
  have ch: "is_chain ?es' p xs = is_chain ?es p xs" for p xs
    by (rule chain_same_links) (simp_all add: nx)
  show ?thesis
    using inv unfolding stack_inv_def by (simp add: ch rg)
qed

lemma chain_lookup_update_in_place:
  assumes "chain_find es rn xs = Some i" "i < length es"
  shows "chain_lookup (es[i := (es ! i)\<lparr>rule := rl, val := v\<rparr>]) rn' xs =
           (if rn' = rn then Some (rl, v) else chain_lookup es rn' xs)"
proof -
  let ?es' = "es[i := (es ! i)\<lparr>rule := rl, val := v\<rparr>]"
  have rg: "regnum (?es' ! j) = regnum (es ! j)" for j
    by (cases "j = i"; cases "i < length es") (simp_all add: list_update_beyond)
  have f: "chain_find ?es' r xs = chain_find es r xs" for r
    by (rule chain_find_cong) (simp add: rg)
  show ?thesis
  proof (cases "rn' = rn")
    case True
    then show ?thesis using assms by (simp add: chain_lookup_def f)
  next
    case False
    have "chain_lookup ?es' rn' xs = chain_lookup es rn' xs"
    proof (cases "chain_find es rn' xs")
      case None
      then show ?thesis by (simp add: chain_lookup_def f)
    next
      case (Some k)
      from chain_find_SomeD [OF this] chain_find_SomeD [OF assms(1)] False have "k \<noteq> i" by auto
      then show ?thesis using Some by (simp add: chain_lookup_def f)
    qed
    then show ?thesis using False by simp
  qed
qed

lemma add_register_exhausted:
  assumes inv: "stack_inv s [] ch"
    and fresh: "chain_find (entries s) rn (concat ch) = None"
  shows "add_register s rn rl v = Some (Inr (False, s))"
proof -
  have "is_chain (entries s) (table_stack s ! 0 ! bucket_of rn) (ch ! bucket_of rn)"
    using stack_invD(7) [OF inv bucket_of_less] .
  from add_register_walk_chain [OF this, of rn]
  show ?thesis using fresh row_lookup_bucket [OF inv, of rn] stack_invD(1,6) [OF inv]
    by (simp add: add_register_def table_rows_def)
qed

lemma stack_inv_insert:
  assumes inv: "stack_inv s (e # fl) ch"
    and b: "b = bucket_of rn"
    and fresh: "chain_find (entries s) rn (ch ! b) = None"
    and pos: "table_pos s' = 0"
    and free: "free_list s' = nxt (entries s ! e)"
    and len: "length (entries s') = length (entries s)"
    and new: "regnum (entries s' ! e) = rn"
    and old: "\<And>i. i \<noteq> e \<Longrightarrow> regnum (entries s' ! i) = regnum (entries s ! i)"
    and links: "\<And>i. i \<noteq> e \<Longrightarrow> i \<notin> set (ch ! b) \<Longrightarrow> nxt (entries s' ! i) = nxt (entries s ! i)"
    and bucket: "is_chain (entries s') (table_stack s' ! 0 ! b) (ch ! b @ [e])"
    and rows: "length (table_stack s') = table_rows"
    and cols: "\<And>r. r < table_rows \<Longrightarrow> length (table_stack s' ! r) = table_buckets"
    and frame: "\<And>r b'. r < table_rows \<Longrightarrow> b' < table_buckets \<Longrightarrow> (r, b') \<noteq> (0, b) \<Longrightarrow>
                  table_stack s' ! r ! b' = table_stack s ! r ! b'"
  shows "stack_inv s' fl (ch[b := ch ! b @ [e]])"
proof -
  let ?ch' = "ch[b := ch ! b @ [e]]"
  have bl: "b < table_buckets" using b bucket_of_less by simp
  have lch: "length ch = table_buckets" using stack_invD(5) [OF inv] .
  have dist: "distinct ((e # fl) @ concat ch)" using stack_inv_distinct [OF inv] .
  have e_fl: "e \<notin> set fl" and e_ch: "e \<notin> set (concat ch)" using dist by auto
  have e_bucket: "e \<notin> set (ch ! b')" if "b' < table_buckets" for b'
    using e_ch stack_inv_bucket_subset [OF inv that] by auto
  have fl_bucket: "i \<notin> set (ch ! b')" if "i \<in> set fl" "b' < table_buckets" for i b'
    using stack_inv_free_bucket_disjoint [OF inv that(2)] that(1) by auto
  have c1: "is_chain (entries s') (free_list s') fl"
  proof -
    from stack_invD(6) [OF inv] have "is_chain (entries s) (nxt (entries s ! e)) fl" by simp
    moreover have "\<forall>j\<in>set fl. nxt (entries s' ! j) = nxt (entries s ! j)"
      using links e_fl fl_bucket [OF _ bl] by metis
    ultimately show ?thesis using chain_same_links [OF len, of fl] free by simp
  qed
  have c2: "is_chain (entries s') (table_stack s' ! 0 ! b') (?ch' ! b')" if b': "b' < table_buckets" for b'
  proof (cases "b' = b")
    case True
    then show ?thesis using bucket bl lch by simp
  next
    case False
    have "\<forall>j\<in>set (ch ! b'). nxt (entries s' ! j) = nxt (entries s ! j)"
    proof
      fix j assume j: "j \<in> set (ch ! b')"
      with e_bucket [OF b'] have "j \<noteq> e" by auto
      moreover from stack_inv_buckets_disjoint [OF inv b' bl False] j have "j \<notin> set (ch ! b)" by auto
      ultimately show "nxt (entries s' ! j) = nxt (entries s ! j)" by (rule links)
    qed
    from chain_same_links [OF len this] stack_invD(7) [OF inv b']
    have "is_chain (entries s') (table_stack s ! 0 ! b') (ch ! b')" by simp
    moreover have "table_stack s' ! 0 ! b' = table_stack s ! 0 ! b'"
      using frame [of 0 b'] b' False by (simp add: table_rows_def)
    ultimately show ?thesis using False by simp
  qed
  have c3: "mset (fl @ concat ?ch') = mset [0..<length (entries s')]"
  proof -
    have "mset (fl @ concat ?ch') = mset ((e # fl) @ concat ch)"
      using mset_concat_snoc [of b ch e] bl lch by simp
    then show ?thesis using stack_invD(8) [OF inv] len by simp
  qed
  have c4: "bucket_of (regnum (entries s' ! i)) = b'"
    if b': "b' < table_buckets" and i: "i \<in> set (?ch' ! b')" for b' i
  proof (cases "i = e")
    case True
    with i e_bucket [OF b'] have "b' = b" by (cases "b' = b") auto
    then show ?thesis using True new b by simp
  next
    case False
    with i have "i \<in> set (ch ! b')" using bl lch by (cases "b' = b") auto
    from stack_invD(9) [OF inv b' this] old [OF False] show ?thesis by simp
  qed
  have c5: "distinct (map (\<lambda>i. regnum (entries s' ! i)) (?ch' ! b'))" if b': "b' < table_buckets" for b'
  proof -
    have same: "map (\<lambda>i. regnum (entries s' ! i)) (ch ! b') = map (\<lambda>i. regnum (entries s ! i)) (ch ! b')"
    proof (rule map_cong [OF refl])
      fix i assume "i \<in> set (ch ! b')"
      with e_bucket [OF b'] have "i \<noteq> e" by auto
      then show "regnum (entries s' ! i) = regnum (entries s ! i)" by (rule old)
    qed
    show ?thesis
    proof (cases "b' = b")
      case True
      have "rn \<notin> (\<lambda>i. regnum (entries s ! i)) ` set (ch ! b)"
        using fresh by (simp add: chain_find_None_iff)
      then have "distinct (map (\<lambda>i. regnum (entries s ! i)) (ch ! b) @ [rn])"
        using stack_invD(10) [OF inv bl] by simp
      then have "distinct (map (\<lambda>i. regnum (entries s' ! i)) (ch ! b) @ [rn])"
        using same True by (simp only:)
      moreover have "map (\<lambda>i. regnum (entries s' ! i)) (?ch' ! b) =
          map (\<lambda>i. regnum (entries s' ! i)) (ch ! b) @ [rn]"
        using new bl lch by simp
      ultimately show ?thesis using True by (simp only:)
    next
      case False
      then have "?ch' ! b' = ch ! b'" by simp
      moreover have "distinct (map (\<lambda>i. regnum (entries s' ! i)) (ch ! b'))"
        using stack_invD(10) [OF inv b'] same by (simp only:)
      ultimately show ?thesis by (simp only:)
    qed
  qed
  have c6: "table_stack s' ! r ! b' = NULL" if "0 < r" "r < table_rows" "b' < table_buckets" for r b'
    using frame [of r b'] that stack_invD(4) [OF inv that] by simp
  show ?thesis
    unfolding stack_inv_def using pos rows cols c1 c2 c3 c4 c5 c6 lch by simp
qed

lemma add_register_fresh:
  assumes inv: "stack_inv s (e # fl) ch"
    and fresh: "chain_find (entries s) rn (concat ch) = None"
  shows "\<exists>s'. add_register s rn rl v = Some (Inr (True, s')) \<and>
          stack_inv s' fl (ch[bucket_of rn := ch ! bucket_of rn @ [e]]) \<and>
          length (entries s') = length (entries s) \<and>
          entries s' ! e = \<lparr>regnum = rn, rule = rl, val = v, nxt = NULL\<rparr> \<and>
          (\<forall>i. i \<noteq> e \<longrightarrow> regnum (entries s' ! i) = regnum (entries s ! i) \<and>
                 rule (entries s' ! i) = rule (entries s ! i) \<and> val (entries s' ! i) = val (entries s ! i)) \<and>
          (\<forall>r b. (r, b) \<noteq> (0, bucket_of rn) \<longrightarrow> table_stack s' ! r ! b = table_stack s ! r ! b)"
proof -
  define b where "b = bucket_of rn"
  define es where "es = entries s"
  define new :: "'a dwarf_cfa_reg_entry" where "new = \<lparr>regnum = rn, rule = rl, val = v, nxt = NULL\<rparr>"
  have bl: "b < table_buckets" unfolding b_def by (rule bucket_of_less)
  have lch: "length ch = table_buckets" using stack_invD(5) [OF inv] .
  have pos: "table_pos s = 0" using stack_invD(1) [OF inv] .
  have rows: "length (table_stack s) = table_rows" using stack_invD(2) [OF inv] .
  have cols: "length (table_stack s ! r) = table_buckets" if "r < table_rows" for r
    using stack_invD(3) [OF inv that] .
  have head: "is_chain es (table_stack s ! 0 ! b) (ch ! b)"
    unfolding es_def using stack_invD(7) [OF inv bl] .
  have fresh_b: "chain_find es rn (ch ! b) = None"
    using fresh row_lookup_bucket [OF inv, of rn] by (simp add: b_def es_def)
  have fl: "free_list s = Ptr e" "e < length es" "is_chain es (nxt (es ! e)) fl"
    using stack_invD(6) [OF inv] by (simp_all add: es_def)
  have e_bucket: "e \<notin> set (ch ! b)"
    using stack_inv_distinct [OF inv] stack_inv_bucket_subset [OF inv bl] by auto
  have walk: "add_register_walk es rn (table_stack s ! 0 ! b) =
      Some (Inr (Parent (if ch ! b = [] then NULL else Ptr (last (ch ! b)))))"
    using add_register_walk_chain [OF head, of rn] fresh_b by simp
  show ?thesis
  proof (cases "ch ! b = []")
    case True
    define s' where "s' = s\<lparr>free_list := nxt (es ! e), entries := es[e := new],
      table_stack := (table_stack s)[0 := (table_stack s ! 0)[b := Ptr e]]\<rparr>"
    have run: "add_register s rn rl v = Some (Inr (True, s'))"
      using walk True fl pos
      by (simp add: add_register_def table_rows_def s'_def b_def [symmetric] es_def [symmetric] new_def)
    have r0: "0 < length (table_stack s)" using rows by (simp add: table_rows_def)
    have c0: "b < length (table_stack s ! 0)" using cols [of 0] bl by (simp add: table_rows_def)
    have tbl: "table_stack s' ! r ! b' = table_stack s ! r ! b'" if "(r, b') \<noteq> (0, b)" for r b'
      using that r0 by (cases "r = 0") (auto simp: s'_def)
    have inv': "stack_inv s' fl (ch[b := ch ! b @ [e]])"
    proof (rule stack_inv_insert [OF inv b_def])
      show "chain_find (entries s) rn (ch ! b) = None" using fresh_b by (simp add: es_def)
      show "table_pos s' = 0" using pos by (simp add: s'_def)
      show "free_list s' = nxt (entries s ! e)" by (simp add: s'_def es_def)
      show "length (entries s') = length (entries s)" by (simp add: s'_def es_def)
      show "regnum (entries s' ! e) = rn" using fl(2) by (simp add: s'_def new_def)
      show "regnum (entries s' ! i) = regnum (entries s ! i)" if "i \<noteq> e" for i
        using that by (simp add: s'_def es_def)
      show "nxt (entries s' ! i) = nxt (entries s ! i)" if "i \<noteq> e" for i
        using that by (simp add: s'_def es_def)
      show "is_chain (entries s') (table_stack s' ! 0 ! b) (ch ! b @ [e])"
        using True fl(2) r0 c0 by (simp add: s'_def new_def)
      show "length (table_stack s') = table_rows" using rows by (simp add: s'_def)
      show "length (table_stack s' ! r) = table_buckets" if "r < table_rows" for r
        using cols [OF that] r0 by (cases "r = 0") (auto simp: s'_def)
      show "table_stack s' ! r ! b' = table_stack s ! r ! b'" if "(r, b') \<noteq> (0, b)" for r b'
        using tbl [OF that] .
    qed
    have "entries s' ! e = new" using fl(2) by (simp add: s'_def)
    moreover have "length (entries s') = length (entries s)" by (simp add: s'_def es_def)
    moreover have "\<forall>i. i \<noteq> e \<longrightarrow> entries s' ! i = entries s ! i" by (simp add: s'_def es_def)
    ultimately show ?thesis using run inv' tbl unfolding b_def new_def by auto
  next
    case False
    define p where "p = last (ch ! b)"
    define es2 where "es2 = es[e := new]"
    define s' where "s' = s\<lparr>free_list := nxt (es ! e), entries := es2[p := (es2 ! p)\<lparr>nxt := Ptr e\<rparr>]\<rparr>"
    have p_in: "p \<in> set (ch ! b)" using False by (simp add: p_def)
    then have p_len: "p < length es" using chain_bounds [OF head] by auto
    have p_e: "p \<noteq> e" using p_in e_bucket by auto
    have run: "add_register s rn rl v = Some (Inr (True, s'))"
      using walk False fl pos p_len
      by (simp add: add_register_def table_rows_def s'_def b_def [symmetric] es_def [symmetric]
          new_def [symmetric] p_def [symmetric] es2_def [symmetric])
    have split: "ch ! b = butlast (ch ! b) @ [p]" using False by (simp add: p_def)
    have db: "distinct (ch ! b)"
      using distinct_concat_nth [of ch b] stack_inv_distinct [OF inv] bl lch by simp
    have p_bl: "p \<notin> set (butlast (ch ! b))" using db split by (metis distinct_butlast not_distinct_conv_prefix append.assoc append_Cons append_Nil distinct.simps(2) distinct_append)
    have e_bl: "e \<notin> set (butlast (ch ! b))" using e_bucket by (auto dest: in_set_butlastD)
    have c2: "is_chain es2 (table_stack s ! 0 ! b) (butlast (ch ! b) @ [p])"
      unfolding es2_def using chain_update_other [OF head e_bucket] split by simp
    have "is_chain (es2[p := (es2 ! p)\<lparr>nxt := Ptr e\<rparr>]) (table_stack s ! 0 ! b) (butlast (ch ! b) @ [p, e])"
      using chain_append_last [OF c2 p_bl e_bl] p_e fl(2) by (simp add: es2_def new_def)
    then have bucket: "is_chain (entries s') (table_stack s' ! 0 ! b) (ch ! b @ [e])"
      using split by (simp add: s'_def) (metis append.assoc append_Cons append_Nil)
    have inv': "stack_inv s' fl (ch[b := ch ! b @ [e]])"
    proof (rule stack_inv_insert [OF inv b_def])
      show "chain_find (entries s) rn (ch ! b) = None" using fresh_b by (simp add: es_def)
      show "table_pos s' = 0" using pos by (simp add: s'_def)
      show "free_list s' = nxt (entries s ! e)" by (simp add: s'_def es_def)
      show "length (entries s') = length (entries s)" by (simp add: s'_def es_def es2_def)
      show "regnum (entries s' ! e) = rn" using fl(2) p_e by (simp add: s'_def new_def es2_def)
      show "regnum (entries s' ! i) = regnum (entries s ! i)" if "i \<noteq> e" for i
        using that p_len by (cases "i = p") (simp_all add: s'_def es_def es2_def)
      show "nxt (entries s' ! i) = nxt (entries s ! i)" if "i \<noteq> e" "i \<notin> set (ch ! b)" for i
        using that p_in by (cases "i = p") (simp_all add: s'_def es_def es2_def)
      show "is_chain (entries s') (table_stack s' ! 0 ! b) (ch ! b @ [e])" using bucket .
      show "length (table_stack s') = table_rows" using rows by (simp add: s'_def)
      show "length (table_stack s' ! r) = table_buckets" if "r < table_rows" for r
        using cols [OF that] by (simp add: s'_def)
      show "table_stack s' ! r ! b' = table_stack s ! r ! b'" for r b'
        by (simp add: s'_def)
    qed
    have "entries s' ! e = new" using fl(2) p_e by (simp add: s'_def es2_def)
    moreover have "length (entries s') = length (entries s)" by (simp add: s'_def es_def es2_def)
    moreover have "regnum (entries s' ! i) = regnum (entries s ! i) \<and>
        rule (entries s' ! i) = rule (entries s ! i) \<and> val (entries s' ! i) = val (entries s ! i)"
      if "i \<noteq> e" for i
      using that p_len by (cases "i = p") (simp_all add: s'_def es_def es2_def)
    moreover have "table_stack s' = table_stack s" by (simp add: s'_def)
    ultimately show ?thesis using run inv' unfolding b_def new_def by auto
  qed
qed

subsection \<open>The constructor establishes the invariant\<close>

lemma init_free_list_length: "length (init_free_list i es) = length es"
proof (induction i es rule: init_free_list.induct)
  case (1 i es)
  then show ?case by (subst init_free_list.simps) simp
qed

lemma init_free_list_nth:
  "j < length es \<Longrightarrow>
   init_free_list i es ! j = (if i \<le> j then (es ! j)\<lparr>nxt := Ptr (j + 1)\<rparr> else es ! j)"
proof (induction i es rule: init_free_list.induct)
  case (1 i es)
  show ?case
  proof (cases "i < length es")
    case True
    have "i \<le> j \<and> \<not> Suc i \<le> j \<longleftrightarrow> j = i" by auto
    with True 1 show ?thesis
      by (subst init_free_list.simps) (auto simp: nth_list_update)
  next
    case False
    with 1 show ?thesis by (subst init_free_list.simps) simp
  qed
qed

lemma size_sub_one: "0 < n \<Longrightarrow> size_sub n 1 = n - 1"
  by (simp add: size_sub_def)

lemma ctor_empty: "dwarf_cfa_stack_ctor [] = Inl OutOfBounds"
  by (simp add: dwarf_cfa_stack_ctor_def init_free_list.simps)

lemma ctor_nonempty:
  assumes "raw \<noteq> []"
  shows "dwarf_cfa_stack_ctor raw =
    Inr \<lparr>table_stack = replicate table_rows (replicate table_buckets NULL),
         table_pos = 0,
         free_list = Ptr 0,
         entries = map (\<lambda>j. (raw ! j)\<lparr>nxt := (if j + 1 < length raw then Ptr (j + 1) else NULL)\<rparr>)
                     [0..<length raw]\<rparr>"
proof -
  let ?es = "init_free_list 0 raw"
  let ?l = "length raw - 1"
  have l: "size_sub (length raw) 1 = ?l" "?l < length raw" using assms size_sub_one [of "length raw"] by simp_all
  have "?es[?l := (?es ! ?l)\<lparr>nxt := NULL\<rparr>] =
        map (\<lambda>j. (raw ! j)\<lparr>nxt := (if j + 1 < length raw then Ptr (j + 1) else NULL)\<rparr>) [0..<length raw]"
    by (rule nth_equalityI) (auto simp: init_free_list_length init_free_list_nth nth_list_update)
  then show ?thesis using l
    by (simp add: dwarf_cfa_stack_ctor_def Let_def init_free_list_length)
qed

lemma chain_threaded:
  assumes len: "length es = S"
    and links: "\<And>j. j < S \<Longrightarrow> nxt (es ! j) = (if j + 1 < S then Ptr (j + 1) else NULL)"
  shows "i < S \<Longrightarrow> is_chain es (Ptr i) [i..<S]"
proof (induction "S - i" arbitrary: i)
  case 0
  then show ?case by simp
next
  case (Suc d)
  have up: "[i..<S] = i # [Suc i..<S]" using Suc.prems by (simp add: upt_conv_Cons)
  show ?case
  proof (cases "Suc i < S")
    case True
    from Suc.hyps(2) have "d = S - Suc i" by simp
    from Suc.hyps(1) [OF this True] show ?thesis
      using up Suc.prems len links [of i] True by simp
  next
    case False
    then show ?thesis using up Suc.prems len links [of i] by simp
  qed
qed

lemma concat_replicate_Nil: "concat (replicate n []) = []"
  by (induction n) auto

lemma ctor_inv:
  assumes "dwarf_cfa_stack_ctor raw = Inr s"
  shows "stack_inv s [0..<length raw] (replicate table_buckets [])"
    and "length (entries s) = length raw" and "raw \<noteq> []"
proof -
  show ne: "raw \<noteq> []"
  proof
    assume "raw = []"
    with assms show False by (simp add: ctor_empty)
  qed
  from ctor_nonempty [OF ne] assms
  have s: "s = \<lparr>table_stack = replicate table_rows (replicate table_buckets NULL),
         table_pos = 0,
         free_list = Ptr 0,
         entries = map (\<lambda>j. (raw ! j)\<lparr>nxt := (if j + 1 < length raw then Ptr (j + 1) else NULL)\<rparr>)
                     [0..<length raw]\<rparr>" by simp
  show len: "length (entries s) = length raw" by (simp add: s)
  have "is_chain (entries s) (Ptr 0) [0..<length raw]"
  proof (rule chain_threaded [OF len])
    show "0 < length raw" using ne by simp
    show "nxt (entries s ! j) = (if j + 1 < length raw then Ptr (j + 1) else NULL)" if "j < length raw" for j
      using that by (simp add: s)
  qed
  then show "stack_inv s [0..<length raw] (replicate table_buckets [])"
    unfolding stack_inv_def using len by (simp add: s concat_replicate_Nil table_rows_def)
qed

lemma add_register_inv:
  assumes inv: "stack_inv s fl ch"
  shows "\<exists>ok s' fl' ch'. add_register s rn rl v = Some (Inr (ok, s')) \<and> stack_inv s' fl' ch'"
proof (cases "chain_find (entries s) rn (concat ch)")
  case (Some i)
  from add_register_existing [OF inv Some] stack_inv_update_in_place [OF inv]
  show ?thesis by blast
next
  case None
  show ?thesis
  proof (cases fl)
    case Nil
    with inv add_register_exhausted [OF _ None] show ?thesis by blast
  next
    case (Cons e fl')
    with inv add_register_fresh [OF _ None] show ?thesis by blast
  qed
qed

lemma reachable_inv: "reachable s \<Longrightarrow> \<exists>fl ch. stack_inv s fl ch"
proof (induction rule: reachable.induct)
  case (constructed raw s)
  then show ?case using ctor_inv(1) by blast
next
  case (added s rn rl v ok s')
  then obtain fl ch where "stack_inv s fl ch" by blast
  from add_register_inv [OF this, of rn rl v] added.hyps(2) show ?case by auto
next
  case (queried s rn res s')
  then obtain fl ch where inv: "stack_inv s fl ch" by blast
  from get_register_rule_inv [OF inv, of rn] queried.hyps(2) have "s' = s" by simp
  with inv show ?case by blast
qed

subsection \<open>The computed free list, chains and bindings\<close>

lemma chain_list_chain: "is_chain es p xs \<Longrightarrow> length xs \<le> n \<Longrightarrow> chain_list es n p = xs"
proof (induction xs arbitrary: n p)
  case Nil
  then show ?case by (cases n) auto
next
  case (Cons i js)
  then show ?case by (cases n) auto
qed

lemma stack_inv_free_entries:
  assumes "stack_inv s fl ch"
  shows "free_entries s = fl"
  unfolding free_entries_def
  using chain_list_chain [OF stack_invD(6) [OF assms]] stack_inv_length [OF assms] by simp

lemma stack_inv_bucket_entries:
  assumes inv: "stack_inv s fl ch" and b: "b < table_buckets"
  shows "bucket_entries s b = ch ! b"
proof -
  have "distinct (ch ! b)"
    using distinct_concat_nth [of ch b] stack_inv_distinct [OF inv] b stack_invD(5) [OF inv] by simp
  then have "length (ch ! b) = card (set (ch ! b))" by (simp add: distinct_card)
  also have "\<dots> \<le> card {..<length (entries s)}"
    using stack_inv_bucket_subset [OF inv b] stack_inv_set [OF inv] by (intro card_mono) auto
  finally have "length (ch ! b) \<le> length (entries s)" by simp
  from chain_list_chain [OF stack_invD(7) [OF inv b] this] show ?thesis
    by (simp add: bucket_entries_def stack_invD(1) [OF inv])
qed

lemma stack_inv_buckets:
  assumes inv: "stack_inv s fl ch"
  shows "map (bucket_entries s) [0..<table_buckets] = ch"
  by (rule nth_equalityI) (simp_all add: stack_invD(5) [OF inv] stack_inv_bucket_entries [OF inv])

lemma stack_inv_row_entries: "stack_inv s fl ch \<Longrightarrow> row_entries s = concat ch"
  by (simp add: row_entries_def stack_inv_buckets)

lemma stack_inv_well_formed: "stack_inv s fl ch \<Longrightarrow> well_formed s"
  by (simp add: well_formed_def stack_inv_free_entries stack_inv_buckets)

lemma reachable_well_formed: "reachable s \<Longrightarrow> well_formed s"
  using reachable_inv stack_inv_well_formed by blast

lemma well_formedD: "well_formed s \<Longrightarrow> stack_inv s (free_entries s) (map (bucket_entries s) [0..<table_buckets])"
  by (simp add: well_formed_def)

lemma well_formed_lookup:
  "stack_inv s fl ch \<Longrightarrow> lookup s rn = chain_lookup (entries s) rn (concat ch)"
  by (simp add: lookup_def stack_inv_row_entries)

lemma chain_lookup_None_iff: "chain_lookup es rn xs = None \<longleftrightarrow> chain_find es rn xs = None"
  by (simp add: chain_lookup_def)

lemma stack_inv_regnums_distinct:
  assumes inv: "stack_inv s fl ch"
  shows "distinct (map (\<lambda>i. regnum (entries s ! i)) (concat ch))"
proof -
  let ?f = "\<lambda>i. regnum (entries s ! i)"
  have lch: "length ch = table_buckets" using stack_invD(5) [OF inv] .
  have "inj_on ?f (set (concat ch))"
  proof (rule inj_onI)
    fix i j assume i: "i \<in> set (concat ch)" and j: "j \<in> set (concat ch)" and eq: "?f i = ?f j"
    from i obtain b1 where b1: "b1 < table_buckets" "i \<in> set (ch ! b1)"
      using lch by (auto simp: in_set_conv_nth) (metis nth_mem)
    from j obtain b2 where b2: "b2 < table_buckets" "j \<in> set (ch ! b2)"
      using lch by (auto simp: in_set_conv_nth) (metis nth_mem)
    from stack_invD(9) [OF inv b1] stack_invD(9) [OF inv b2] eq have "b1 = b2" by simp
    moreover from stack_invD(10) [OF inv b1(1)] have "inj_on ?f (set (ch ! b1))"
      by (simp add: distinct_map)
    ultimately show "i = j" using b1 b2 eq by (auto dest: inj_onD)
  qed
  moreover have "distinct (concat ch)" using stack_inv_distinct [OF inv] by simp
  ultimately show ?thesis by (simp add: distinct_map)
qed

lemma dom_lookup:
  assumes inv: "stack_inv s fl ch"
  shows "dom (lookup s) = (\<lambda>i. regnum (entries s ! i)) ` set (concat ch)"
proof -
  have "lookup s rn \<noteq> None \<longleftrightarrow> rn \<in> (\<lambda>i. regnum (entries s ! i)) ` set (concat ch)" for rn
    using chain_find_None_iff [of "entries s" rn "concat ch"]
    by (simp add: well_formed_lookup [OF inv] chain_lookup_None_iff)
  then show ?thesis by (auto simp: dom_def)
qed

lemma card_dom_lookup:
  assumes inv: "stack_inv s fl ch"
  shows "card (dom (lookup s)) = length (concat ch)"
proof -
  have "card (dom (lookup s)) = card (set (map (\<lambda>i. regnum (entries s ! i)) (concat ch)))"
    by (simp add: dom_lookup [OF inv])
  also have "\<dots> = length (map (\<lambda>i. regnum (entries s ! i)) (concat ch))"
    using stack_inv_regnums_distinct [OF inv] by (rule distinct_card)
  finally show ?thesis by simp
qed

lemma well_formed_capacity:
  assumes "well_formed s"
  shows "card (dom (lookup s)) + length (free_entries s) = length (entries s)"
  using card_dom_lookup [OF well_formedD [OF assms]] stack_inv_length [OF well_formedD [OF assms]]
  by simp

lemma well_formed_get:
  assumes "well_formed s"
  shows "get_register_rule s rn = Some (Inr (lookup s rn, s))"
  using get_register_rule_inv [OF well_formedD [OF assms], of rn]
    well_formed_lookup [OF well_formedD [OF assms], of rn] by simp

lemma chain_find_snoc:
  "chain_find es rn (xs @ [e]) =
     (case chain_find es rn xs of Some i \<Rightarrow> Some i
      | None \<Rightarrow> if regnum (es ! e) = rn then Some e else None)"
  by (simp add: chain_find_def find_append_cases split: option.splits)

lemma lookup_fresh:
  assumes inv: "stack_inv s (e # fl) ch"
    and inv': "stack_inv s' fl (ch[bucket_of rn := ch ! bucket_of rn @ [e]])"
    and fresh: "chain_find (entries s) rn (concat ch) = None"
    and new: "entries s' ! e = \<lparr>regnum = rn, rule = rl, val = v, nxt = NULL\<rparr>"
    and old: "\<forall>i. i \<noteq> e \<longrightarrow> regnum (entries s' ! i) = regnum (entries s ! i) \<and>
                 rule (entries s' ! i) = rule (entries s ! i) \<and> val (entries s' ! i) = val (entries s ! i)"
  shows "lookup s' rn' = (if rn' = rn then Some (rl, v) else lookup s rn')"
proof -
  let ?b = "bucket_of rn"
  let ?ch' = "ch[?b := ch ! ?b @ [e]]"
  have lch: "length ch = table_buckets" using stack_invD(5) [OF inv] .
  have e_bucket: "e \<notin> set (ch ! b')" if "b' < table_buckets" for b'
    using stack_inv_distinct [OF inv] stack_inv_bucket_subset [OF inv that] by auto
  have same: "chain_find (entries s') r (ch ! b') = chain_find (entries s) r (ch ! b')"
    if "b' < table_buckets" for r b'
  proof (rule chain_find_cong, rule ballI)
    fix i assume "i \<in> set (ch ! b')"
    with e_bucket [OF that] have "i \<noteq> e" by auto
    with old show "regnum (entries s' ! i) = regnum (entries s ! i)" by simp
  qed
  have l': "lookup s' r = chain_lookup (entries s') r (?ch' ! bucket_of r)" for r
    using row_lookup_bucket [OF inv', of r]
    by (simp add: well_formed_lookup [OF inv'] chain_lookup_def)
  have l: "lookup s r = chain_lookup (entries s) r (ch ! bucket_of r)" for r
    using row_lookup_bucket [OF inv, of r]
    by (simp add: well_formed_lookup [OF inv] chain_lookup_def)
  have fresh_b: "chain_find (entries s) rn (ch ! ?b) = None"
    using fresh row_lookup_bucket [OF inv, of rn] by simp
  show ?thesis
  proof (cases "rn' = rn")
    case True
    have "chain_find (entries s') rn (ch ! ?b @ [e]) = Some e"
      using fresh_b same [OF bucket_of_less, of rn rn] new by (simp add: chain_find_snoc)
    then show ?thesis using True new lch bucket_of_less [of rn]
      by (simp add: l' chain_lookup_def)
  next
    case False
    have f: "chain_find (entries s') rn' (?ch' ! bucket_of rn') = chain_find (entries s) rn' (ch ! bucket_of rn')"
    proof (cases "bucket_of rn' = ?b")
      case True
      then show ?thesis using False new same [OF bucket_of_less, of rn' rn] lch bucket_of_less [of rn]
        by (simp add: chain_find_snoc split: option.splits)
    next
      case False
      then show ?thesis using same [OF bucket_of_less, of rn' rn'] by simp
    qed
    have "chain_lookup (entries s') rn' (?ch' ! bucket_of rn') = chain_lookup (entries s) rn' (ch ! bucket_of rn')"
    proof (cases "chain_find (entries s) rn' (ch ! bucket_of rn')")
      case None
      then show ?thesis by (simp add: chain_lookup_def f)
    next
      case (Some k)
      from chain_find_SomeD [OF this] e_bucket [OF bucket_of_less, of rn'] have "k \<noteq> e" by auto
      with old Some show ?thesis by (simp add: chain_lookup_def f)
    qed
    then show ?thesis using False by (simp add: l l')
  qed
qed

lemma well_formed_add_existing:
  assumes wf: "well_formed s" and present: "lookup s rn \<noteq> None"
  shows "\<exists>i. i \<in> set (row_entries s) \<and> regnum (entries s ! i) = rn \<and>
           add_register s rn rl v =
             Some (Inr (True, s\<lparr>entries := (entries s)[i := (entries s ! i)\<lparr>rule := rl, val := v\<rparr>]\<rparr>)) \<and>
           well_formed (s\<lparr>entries := (entries s)[i := (entries s ! i)\<lparr>rule := rl, val := v\<rparr>]\<rparr>) \<and>
           lookup (s\<lparr>entries := (entries s)[i := (entries s ! i)\<lparr>rule := rl, val := v\<rparr>]\<rparr>) = (lookup s)(rn \<mapsto> (rl, v)) \<and>
           free_entries (s\<lparr>entries := (entries s)[i := (entries s ! i)\<lparr>rule := rl, val := v\<rparr>]\<rparr>) = free_entries s"
proof -
  define fl where "fl = free_entries s"
  define ch where "ch = map (bucket_entries s) [0..<table_buckets]"
  have inv: "stack_inv s fl ch" using well_formedD [OF wf] by (simp add: fl_def ch_def)
  from present obtain i where i: "chain_find (entries s) rn (concat ch) = Some i"
    by (auto simp: well_formed_lookup [OF inv] chain_lookup_None_iff)
  let ?s' = "s\<lparr>entries := (entries s)[i := (entries s ! i)\<lparr>rule := rl, val := v\<rparr>]\<rparr>"
  have inv': "stack_inv ?s' fl ch" using stack_inv_update_in_place [OF inv] .
  have mem: "i \<in> set (concat ch)" "regnum (entries s ! i) = rn" using chain_find_SomeD [OF i] by auto
  then have "i < length (entries s)" using stack_inv_set [OF inv] by auto
  from chain_lookup_update_in_place [OF i this]
  have "lookup ?s' = (lookup s)(rn \<mapsto> (rl, v))"
    by (auto simp: well_formed_lookup [OF inv] well_formed_lookup [OF inv'])
  moreover have "free_entries ?s' = free_entries s"
    using stack_inv_free_entries [OF inv] stack_inv_free_entries [OF inv'] by simp
  ultimately show ?thesis
    using mem add_register_existing [OF inv i] stack_inv_well_formed [OF inv']
      stack_inv_row_entries [OF inv] by auto
qed

lemma well_formed_add_exhausted:
  assumes wf: "well_formed s" and absent: "lookup s rn = None" and full: "free_entries s = []"
  shows "add_register s rn rl v = Some (Inr (False, s))"
proof -
  define ch where "ch = map (bucket_entries s) [0..<table_buckets]"
  have inv: "stack_inv s [] ch" using well_formedD [OF wf] full by (simp add: ch_def)
  from absent have "chain_find (entries s) rn (concat ch) = None"
    by (simp add: well_formed_lookup [OF inv] chain_lookup_None_iff)
  from add_register_exhausted [OF inv this] show ?thesis .
qed

lemma well_formed_add_fresh:
  assumes wf: "well_formed s" and absent: "lookup s rn = None" and free: "free_entries s = e # fl"
  shows "\<exists>s'. add_register s rn rl v = Some (Inr (True, s')) \<and> well_formed s' \<and>
           lookup s' = (lookup s)(rn \<mapsto> (rl, v)) \<and>
           free_entries s' = fl \<and>
           length (entries s') = length (entries s) \<and>
           bucket_entries s' (bucket_of rn) = bucket_entries s (bucket_of rn) @ [e] \<and>
           (\<forall>b<table_buckets. b \<noteq> bucket_of rn \<longrightarrow> bucket_entries s' b = bucket_entries s b) \<and>
           (\<forall>i. i \<noteq> e \<longrightarrow> regnum (entries s' ! i) = regnum (entries s ! i) \<and>
                 rule (entries s' ! i) = rule (entries s ! i) \<and> val (entries s' ! i) = val (entries s ! i)) \<and>
           (\<forall>r b. (r, b) \<noteq> (0, bucket_of rn) \<longrightarrow> table_stack s' ! r ! b = table_stack s ! r ! b)"
proof -
  define ch where "ch = map (bucket_entries s) [0..<table_buckets]"
  let ?b = "bucket_of rn"
  have inv: "stack_inv s (e # fl) ch" using well_formedD [OF wf] free by (simp add: ch_def)
  have lch: "length ch = table_buckets" using stack_invD(5) [OF inv] .
  from absent have fresh: "chain_find (entries s) rn (concat ch) = None"
    by (simp add: well_formed_lookup [OF inv] chain_lookup_None_iff)
  from add_register_fresh [OF inv fresh, of rl v] obtain s' where
    run: "add_register s rn rl v = Some (Inr (True, s'))"
    and inv': "stack_inv s' fl (ch[?b := ch ! ?b @ [e]])"
    and len: "length (entries s') = length (entries s)"
    and new: "entries s' ! e = \<lparr>regnum = rn, rule = rl, val = v, nxt = NULL\<rparr>"
    and old: "\<forall>i. i \<noteq> e \<longrightarrow> regnum (entries s' ! i) = regnum (entries s ! i) \<and>
                 rule (entries s' ! i) = rule (entries s ! i) \<and> val (entries s' ! i) = val (entries s ! i)"
    and tbl: "\<forall>r b. (r, b) \<noteq> (0, ?b) \<longrightarrow> table_stack s' ! r ! b = table_stack s ! r ! b"
    by blast
  have "lookup s' = (lookup s)(rn \<mapsto> (rl, v))"
    using lookup_fresh [OF inv inv' fresh new old] by auto
  moreover have "bucket_entries s' ?b = bucket_entries s ?b @ [e]"
    using stack_inv_bucket_entries [OF inv' bucket_of_less] stack_inv_bucket_entries [OF inv bucket_of_less]
      lch bucket_of_less [of rn] by simp
  moreover have "bucket_entries s' b = bucket_entries s b" if "b < table_buckets" "b \<noteq> ?b" for b
    using stack_inv_bucket_entries [OF inv' that(1)] stack_inv_bucket_entries [OF inv that(1)] that(2)
    by simp
  ultimately show ?thesis
    using run stack_inv_well_formed [OF inv'] stack_inv_free_entries [OF inv'] len old tbl by blast
qed

subsection \<open>The loops with a step budget, and what a call leaves alone\<close>

lemma add_register_walk_fuel_sound:
  "add_register_walk_fuel n es rn p = Some r \<Longrightarrow> add_register_walk es rn p = Some r"
proof (induction n es rn p rule: add_register_walk_fuel.induct)
  case (1 n es rn)
  then show ?case by (simp add: add_register_walk.simps)
next
  case (2 es rn i)
  then show ?case by simp
next
  case (3 n es rn i)
  then show ?case by (subst add_register_walk.simps) (auto split: if_splits)
qed

lemma get_register_rule_walk_fuel_sound:
  "get_register_rule_walk_fuel n es rn p = Some r \<Longrightarrow> get_register_rule_walk es rn p = Some r"
proof (induction n es rn p rule: get_register_rule_walk_fuel.induct)
  case (1 n es rn)
  then show ?case by (simp add: get_register_rule_walk.simps)
next
  case (2 es rn i)
  then show ?case by simp
next
  case (3 n es rn i)
  then show ?case by (subst get_register_rule_walk.simps) (auto split: if_splits)
qed

lemma add_register_walk_fuel_chain:
  "is_chain es p xs \<Longrightarrow> length xs \<le> n \<Longrightarrow> \<exists>r. add_register_walk_fuel n es rn p = Some r"
proof (induction xs arbitrary: n p)
  case Nil
  then show ?case by simp
next
  case (Cons i js)
  then obtain m where "n = Suc m" by (cases n) auto
  with Cons show ?case by auto
qed

lemma get_register_rule_walk_fuel_chain:
  "is_chain es p xs \<Longrightarrow> length xs \<le> n \<Longrightarrow> \<exists>r. get_register_rule_walk_fuel n es rn p = Some r"
proof (induction xs arbitrary: n p)
  case Nil
  then show ?case by simp
next
  case (Cons i js)
  then obtain m where "n = Suc m" by (cases n) auto
  with Cons show ?case by auto
qed

lemma add_register_frame:
  "add_register s rn rl v = Some (Inr (ok, s')) \<Longrightarrow>
   table_pos s' = table_pos s \<and> length (entries s') = length (entries s) \<and>
   (\<forall>r. r \<noteq> table_pos s \<longrightarrow> table_stack s' ! r = table_stack s ! r)"
  by (auto simp: add_register_def Let_def
      split: if_splits option.splits sum.splits walk_result.splits ptr.splits)

lemma get_register_rule_frame:
  "get_register_rule s rn = Some (Inr (res, s')) \<Longrightarrow> s' = s"
  by (auto simp: get_register_rule_def Let_def split: if_splits option.splits sum.splits)

lemma get_register_rule_reads_current_row:
  assumes "table_pos t = table_pos s" "table_stack t ! table_pos s = table_stack s ! table_pos s"
    "entries t = entries s"
  shows "map_option (map_sum id fst) (get_register_rule t rn) =
         map_option (map_sum id fst) (get_register_rule s rn)"
  using assms
  by (auto simp: get_register_rule_def Let_def split: option.splits sum.splits)

lemma add_register_reads_current_row:
  assumes "table_pos t = table_pos s" "table_stack t ! table_pos s = table_stack s ! table_pos s"
    "entries t = entries s" "free_list t = free_list s"
    "length (table_stack t) = length (table_stack s)"
    and run: "add_register s rn rl v = Some (Inr (ok, s'))"
  shows "\<exists>t'. add_register t rn rl v = Some (Inr (ok, t')) \<and> entries t' = entries s' \<and>
           free_list t' = free_list s' \<and>
           table_stack t' ! table_pos s = table_stack s' ! table_pos s"
proof (cases "table_pos s < length (table_stack s)")
  case True
  with assms show ?thesis
    by (auto simp: add_register_def Let_def
        split: if_splits option.splits sum.splits walk_result.splits ptr.splits)
next
  case False
  with assms show ?thesis
    by (auto simp: add_register_def Let_def list_update_beyond
        split: if_splits option.splits sum.splits walk_result.splits ptr.splits)
qed

subsection \<open>Call sequences\<close>

lemma finite_dom_lookup: "well_formed s \<Longrightarrow> finite (dom (lookup s))"
  using dom_lookup [OF well_formedD] by (metis List.finite_set finite_imageI)

lemma well_formed_add_ok:
  assumes wf: "well_formed s" and room: "rn \<in> dom (lookup s) \<or> free_entries s \<noteq> []"
  shows "\<exists>s'. add_register s rn rl v = Some (Inr (True, s')) \<and> well_formed s' \<and>
           lookup s' = (lookup s)(rn \<mapsto> (rl, v)) \<and> length (entries s') = length (entries s)"
proof (cases "lookup s rn")
  case None
  with room obtain e fl where "free_entries s = e # fl" by (cases "free_entries s") auto
  from well_formed_add_fresh [OF wf None this, of rl v] show ?thesis by blast
next
  case (Some x)
  then have "lookup s rn \<noteq> None" by simp
  from well_formed_add_existing [OF wf this, of rl v] show ?thesis by auto
qed

lemma last_added_None_iff: "last_added calls rn = None \<longleftrightarrow> rn \<notin> fst ` set calls"
  by (induction calls rn rule: last_added.induct) (auto split: option.splits)

lemma add_registers_run:
  "well_formed s \<Longrightarrow> card (dom (lookup s) \<union> fst ` set calls) \<le> length (entries s) \<Longrightarrow>
   \<exists>s'. add_registers s calls = Some (Inr (replicate (length calls) True, s')) \<and> well_formed s' \<and>
        length (entries s') = length (entries s) \<and>
        lookup s' = (\<lambda>rn. case last_added calls rn of Some x \<Rightarrow> Some x | None \<Rightarrow> lookup s rn)"
proof (induction calls arbitrary: s)
  case Nil
  then show ?case by simp
next
  case (Cons c calls)
  obtain rn rl v where c: "c = (rn, rl, v)" by (cases c) auto
  let ?A = "dom (lookup s)"
  have fin: "finite (?A \<union> fst ` set (c # calls))" using finite_dom_lookup [OF Cons.prems(1)] by simp
  have room: "rn \<in> ?A \<or> free_entries s \<noteq> []"
  proof (cases "rn \<in> ?A")
    case True
    then show ?thesis by simp
  next
    case False
    have "card (insert rn ?A) \<le> card (?A \<union> fst ` set (c # calls))"
      using fin c by (intro card_mono) auto
    with False finite_dom_lookup [OF Cons.prems(1)] Cons.prems(2)
    have "card ?A < length (entries s)" by simp
    with well_formed_capacity [OF Cons.prems(1)] show ?thesis by auto
  qed
  from well_formed_add_ok [OF Cons.prems(1) room, of rl v] obtain s1 where
    run1: "add_register s rn rl v = Some (Inr (True, s1))" and wf1: "well_formed s1"
    and l1: "lookup s1 = (lookup s)(rn \<mapsto> (rl, v))" and len1: "length (entries s1) = length (entries s)"
    by blast
  have "dom (lookup s1) \<union> fst ` set calls = ?A \<union> fst ` set (c # calls)"
    using c by (auto simp: l1)
  with Cons.prems(2) len1 have "card (dom (lookup s1) \<union> fst ` set calls) \<le> length (entries s1)"
    by simp
  from Cons.IH [OF wf1 this] obtain s' where
    run: "add_registers s1 calls = Some (Inr (replicate (length calls) True, s'))"
    and wf': "well_formed s'" and len': "length (entries s') = length (entries s1)"
    and l': "lookup s' = (\<lambda>r. case last_added calls r of Some x \<Rightarrow> Some x | None \<Rightarrow> lookup s1 r)"
    by blast
  have "lookup s' = (\<lambda>r. case last_added (c # calls) r of Some x \<Rightarrow> Some x | None \<Rightarrow> lookup s r)"
    by (rule ext) (simp add: l' l1 c split: option.splits)
  then show ?case using run1 run wf' len' len1 c by simp
qed

lemma add_registers_dom:
  assumes "lookup s' = (\<lambda>rn. case last_added calls rn of Some x \<Rightarrow> Some x | None \<Rightarrow> lookup s rn)"
  shows "dom (lookup s') = dom (lookup s) \<union> fst ` set calls"
proof -
  have "lookup s' rn \<noteq> None \<longleftrightarrow> lookup s rn \<noteq> None \<or> rn \<in> fst ` set calls" for rn
    using last_added_None_iff [of calls rn] by (cases "last_added calls rn") (simp_all add: assms)
  then show ?thesis unfolding dom_def by blast
qed

lemma ctor_well_formed:
  assumes "dwarf_cfa_stack_ctor raw = Inr s"
  shows "well_formed s" and "lookup s = Map.empty" and "free_entries s = [0..<length raw]"
    and "length (entries s) = length raw"
proof -
  note inv = ctor_inv(1) [OF assms]
  show "well_formed s" using stack_inv_well_formed [OF inv] .
  show "lookup s = Map.empty"
    by (rule ext) (simp add: well_formed_lookup [OF inv] concat_replicate_Nil chain_lookup_def chain_find_def)
  show "free_entries s = [0..<length raw]" using stack_inv_free_entries [OF inv] .
  show "length (entries s) = length raw" using ctor_inv(2) [OF assms] .
qed

subsection \<open>Effects of a call on a well-formed object, and the example pool\<close>

lemma well_formed_add_effect:
  assumes wf: "well_formed s" and run: "add_register s rn rl v = Some (Inr (ok, s'))"
  shows "well_formed s'"
    and "ok \<Longrightarrow> lookup s' = (lookup s)(rn \<mapsto> (rl, v))"
    and "\<not> ok \<Longrightarrow> s' = s \<and> lookup s rn = None \<and> free_entries s = []"
proof -
  have "well_formed s' \<and> (ok \<longrightarrow> lookup s' = (lookup s)(rn \<mapsto> (rl, v))) \<and>
        (\<not> ok \<longrightarrow> s' = s \<and> lookup s rn = None \<and> free_entries s = [])"
  proof (cases "rn \<in> dom (lookup s) \<or> free_entries s \<noteq> []")
    case True
    from well_formed_add_ok [OF wf True, of rl v] run show ?thesis by auto
  next
    case False
    then have "lookup s rn = None" "free_entries s = []" by auto
    from well_formed_add_exhausted [OF wf this, of rl v] run this wf show ?thesis by auto
  qed
  then show "well_formed s'" and "ok \<Longrightarrow> lookup s' = (lookup s)(rn \<mapsto> (rl, v))"
    and "\<not> ok \<Longrightarrow> s' = s \<and> lookup s rn = None \<and> free_entries s = []" by auto
qed

lemma add_registers_from_ctor:
  assumes ctor: "dwarf_cfa_stack_ctor raw = Inr s0"
    and cap: "card (fst ` set calls) \<le> length raw"
  shows "\<exists>s. add_registers s0 calls = Some (Inr (replicate (length calls) True, s)) \<and>
           well_formed s \<and> length (entries s) = length raw \<and>
           lookup s = last_added calls \<and> dom (lookup s) = fst ` set calls"
proof -
  note c = ctor_well_formed [OF ctor]
  have "card (dom (lookup s0) \<union> fst ` set calls) \<le> length (entries s0)"
    using cap c(2,4) by simp
  from add_registers_run [OF c(1) this] obtain s where
    run: "add_registers s0 calls = Some (Inr (replicate (length calls) True, s))"
    and wf: "well_formed s" and len: "length (entries s) = length (entries s0)"
    and l: "lookup s = (\<lambda>rn. case last_added calls rn of Some x \<Rightarrow> Some x | None \<Rightarrow> lookup s0 rn)"
    by blast
  have "lookup s = last_added calls"
    by (rule ext) (simp add: l c(2) split: option.splits)
  moreover have "dom (lookup s) = fst ` set calls"
    using add_registers_dom [OF l] c(2) by simp
  ultimately show ?thesis using run wf len c(4) by auto
qed

lemma well_formed_bucket_head:
  assumes wf: "well_formed s" and b: "b < table_buckets" and ne: "bucket_entries s b \<noteq> []"
  shows "table_stack s ! table_pos s ! b = Ptr (hd (bucket_entries s b))"
proof -
  note inv = well_formedD [OF wf]
  from stack_invD(7) [OF inv b] b
  have "is_chain (entries s) (table_stack s ! 0 ! b) (bucket_entries s b)" by simp
  with ne show ?thesis using stack_invD(1) [OF inv] by (cases "bucket_entries s b") auto
qed

lemma example_ctor: "dwarf_cfa_stack_ctor example_raw = Inr example_s0"
  by (simp add: dwarf_cfa_stack_ctor_def example_raw_def example_s0_def size_sub_def
      init_free_list.simps table_rows_def table_buckets_def)

lemma example_add_5:
  "add_register example_s0 5 DWARF_CFA_REG_RULE_OFFSET 8 = Some (Inr (True, example_s1))"
  by (simp add: add_register_def example_s0_def example_s1_def bucket_of_def table_rows_def
      table_buckets_def add_register_walk.simps)

lemma example_add_20:
  "add_register example_s1 20 DWARF_CFA_REG_RULE_OFFSET 16 = Some (Inr (True, example_s2))"
  by (simp add: add_register_def example_s1_def example_s2_def bucket_of_def table_rows_def
      table_buckets_def add_register_walk.simps)

lemma example_reachable:
  "reachable example_s0" "reachable example_s1" "reachable example_s2"
proof -
  show r0: "reachable example_s0" using example_ctor by (rule reachable.constructed)
  show r1: "reachable example_s1" using r0 example_add_5 by (rule reachable.added)
  show "reachable example_s2" using r1 example_add_20 by (rule reachable.added)
qed

lemma example_add_registers:
  "add_registers example_s0 example_calls = Some (Inr ([True, True], example_s2))"
  by (simp add: example_calls_def example_add_5 example_add_20)

lemma example_card: "card (fst ` set example_calls) = 2"
  by (simp add: example_calls_def)

lemma example_free:
  "free_entries example_s0 = [0, 1]" "free_entries example_s1 = [1]" "free_entries example_s2 = []"
  by (simp_all add: free_entries_def example_s0_def example_s1_def example_s2_def numeral_2_eq_2)

lemma example_buckets:
  "bucket_entries example_s0 5 = []" "bucket_entries example_s1 5 = [0]" "bucket_entries example_s2 5 = [0, 1]"
  by (simp_all add: bucket_entries_def example_s0_def example_s1_def example_s2_def numeral_2_eq_2)

lemma example_row:
  "row_entries example_s0 = []" "row_entries example_s1 = [0]" "row_entries example_s2 = [0, 1]"
  by code_simp+

lemma example_lookup:
  "lookup example_s1 5 = Some (DWARF_CFA_REG_RULE_OFFSET, 8)" "lookup example_s1 20 = None"
  by code_simp+

section \<open>The claims\<close>

text \<open>
  C1. After any sequence of \<open>add_register\<close> calls on a freshly constructed object
  whose number of distinct register numbers is at most the capacity, every call has
  returned success, and \<open>get_register_rule\<close> for each register of the sequence returns
  success with the rule and the value of the most recent call for that register.
\<close>

theorem add_then_get_most_recent:
  assumes "dwarf_cfa_stack_ctor raw = Inr s0"
    and "card (fst ` set calls) \<le> length raw"
  shows "\<exists>s. add_registers s0 calls = Some (Inr (replicate (length calls) True, s)) \<and>
           (\<forall>rn\<in>fst ` set calls. \<exists>rl v. last_added calls rn = Some (rl, v) \<and>
              get_register_rule s rn = Some (Inr (Some (rl, v), s)))"
proof -
  from add_registers_from_ctor [OF assms] obtain s where
    run: "add_registers s0 calls = Some (Inr (replicate (length calls) True, s))"
    and wf: "well_formed s" and l: "lookup s = last_added calls" by blast
  have "\<exists>rl v. last_added calls rn = Some (rl, v) \<and> get_register_rule s rn = Some (Inr (Some (rl, v), s))"
    if "rn \<in> fst ` set calls" for rn
  proof -
    from that last_added_None_iff [of calls rn] obtain rl v where "last_added calls rn = Some (rl, v)"
      by (cases "last_added calls rn") auto
    with well_formed_get [OF wf, of rn] l show ?thesis by simp
  qed
  with run show ?thesis by blast
qed

text \<open>
  The scenario with capacity 2: registers 5 and 20 are added and both are read back.
\<close>

theorem add_then_get_most_recent_witness:
  "dwarf_cfa_stack_ctor example_raw = Inr example_s0 \<and>
   card (fst ` set example_calls) \<le> length example_raw \<and>
   add_registers example_s0 example_calls = Some (Inr ([True, True], example_s2)) \<and>
   get_register_rule example_s2 5 = Some (Inr (Some (DWARF_CFA_REG_RULE_OFFSET, 8), example_s2)) \<and>
   get_register_rule example_s2 20 = Some (Inr (Some (DWARF_CFA_REG_RULE_OFFSET, 16), example_s2))"
proof -
  have cap: "card (fst ` set example_calls) \<le> length example_raw"
    by (simp add: example_card example_raw_def)
  from add_then_get_most_recent [OF example_ctor cap] obtain s where
    run: "add_registers example_s0 example_calls = Some (Inr (replicate (length example_calls) True, s))"
    and get: "\<forall>rn\<in>fst ` set example_calls. \<exists>rl v. last_added example_calls rn = Some (rl, v) \<and>
              get_register_rule s rn = Some (Inr (Some (rl, v), s))" by blast
  from run have s: "s = example_s2" by (simp add: example_add_registers)
  from get [rule_format, of 5] get [rule_format, of 20]
  have "get_register_rule example_s2 5 = Some (Inr (Some (DWARF_CFA_REG_RULE_OFFSET, 8), example_s2))"
    and "get_register_rule example_s2 20 = Some (Inr (Some (DWARF_CFA_REG_RULE_OFFSET, 16), example_s2))"
    by (simp_all add: s example_calls_def)
  then show ?thesis using example_ctor cap example_add_registers by simp
qed

text \<open>
  C2, as amended. For every capacity of at least 1 the constructor returns an object
  without leaving the entry array: entry \<open>i\<close> points to entry \<open>i + 1\<close>, the last
  entry points to \<open>NULL\<close>, the free list starts at entry 0 and holds every entry, all
  6 by 15 bucket heads are \<open>NULL\<close>, and the current row is the first one.
\<close>

theorem ctor_succeeds_nonzero_capacity:
  assumes "raw \<noteq> []"
  shows "\<exists>s. dwarf_cfa_stack_ctor raw = Inr s \<and>
           length (entries s) = length raw \<and>
           (\<forall>i<length raw. entries s ! i =
              (raw ! i)\<lparr>nxt := (if i + 1 < length raw then Ptr (i + 1) else NULL)\<rparr>) \<and>
           free_list s = Ptr 0 \<and> free_entries s = [0..<length raw] \<and>
           table_stack s = replicate table_rows (replicate table_buckets NULL) \<and>
           table_pos s = 0 \<and> row_entries s = []"
proof -
  from ctor_nonempty [OF assms] obtain s where
    s: "dwarf_cfa_stack_ctor raw = Inr s"
    and def: "s = \<lparr>table_stack = replicate table_rows (replicate table_buckets NULL),
         table_pos = 0, free_list = Ptr 0,
         entries = map (\<lambda>j. (raw ! j)\<lparr>nxt := (if j + 1 < length raw then Ptr (j + 1) else NULL)\<rparr>)
                     [0..<length raw]\<rparr>" by blast
  have "row_entries s = []"
    using stack_inv_row_entries [OF ctor_inv(1) [OF s]] by (simp add: concat_replicate_Nil)
  then show ?thesis using s ctor_well_formed(3) [OF s] by (simp add: def)
qed

text \<open>
  C2 as stated includes capacity 0. There the loop body never runs, and the statement
  \<open>_entries[S-1].next = NULL\<close> that follows it computes \<open>S - 1\<close> in \<open>size_t\<close>: the
  index is \<open>SIZE_MAX\<close>, outside the empty array.
\<close>

theorem ctor_zero_capacity_out_of_bounds:
  "dwarf_cfa_stack_ctor ([] :: int dwarf_cfa_reg_entry list) = Inl OutOfBounds"
  by (rule ctor_empty)

text \<open>
  The constructor on the pool of capacity 2.
\<close>

theorem ctor_succeeds_nonzero_capacity_witness:
  "example_raw \<noteq> [] \<and> dwarf_cfa_stack_ctor example_raw = Inr example_s0 \<and>
   length (entries example_s0) = 2 \<and> nxt (entries example_s0 ! 0) = Ptr 1 \<and>
   nxt (entries example_s0 ! 1) = NULL \<and> free_list example_s0 = Ptr 0 \<and>
   free_entries example_s0 = [0, 1] \<and> table_pos example_s0 = 0 \<and> row_entries example_s0 = []"
proof -
  have ne: "example_raw \<noteq> []" by (simp add: example_raw_def)
  from ctor_succeeds_nonzero_capacity [OF ne] obtain s where
    "dwarf_cfa_stack_ctor example_raw = Inr s" "free_entries s = [0..<length example_raw]"
    "row_entries s = []" by blast
  then have "free_entries example_s0 = [0..<length example_raw]" "row_entries example_s0 = []"
    by (simp_all add: example_ctor)
  moreover have "length example_raw = 2" by (simp add: example_raw_def)
  ultimately have "free_entries example_s0 = [0, 1]" "row_entries example_s0 = []"
    by (simp_all add: upt_rec)
  moreover have "length (entries example_s0) = 2" "nxt (entries example_s0 ! 0) = Ptr 1"
    "nxt (entries example_s0 ! 1) = NULL" "free_list example_s0 = Ptr 0" "table_pos example_s0 = 0"
    by (simp_all add: example_s0_def)
  ultimately show ?thesis using ne example_ctor by simp
qed

text \<open>
  C3. In a reachable state, \<open>add_register\<close> for a register that the active row already
  holds returns success, and the object afterwards differs only in the rule and the value
  of that register's entry: the free list is the same. Hence after adding registers with
  \<open>k\<close> distinct numbers, \<open>k\<close> at most the capacity \<open>S\<close>, any further calls for registers
  among them all succeed and leave exactly \<open>S - k\<close> entries on the free list.
\<close>

theorem update_in_place_keeps_free_list:
  "(reachable s \<and> lookup s rn \<noteq> None \<longrightarrow>
      (\<exists>i. i \<in> set (row_entries s) \<and> regnum (entries s ! i) = rn \<and>
           add_register s rn rl v =
             Some (Inr (True, s\<lparr>entries := (entries s)[i := (entries s ! i)\<lparr>rule := rl, val := v\<rparr>]\<rparr>)) \<and>
           free_entries (s\<lparr>entries := (entries s)[i := (entries s ! i)\<lparr>rule := rl, val := v\<rparr>]\<rparr>) =
             free_entries s)) \<and>
   (dwarf_cfa_stack_ctor raw = Inr s0 \<and> card (fst ` set ins) \<le> length raw \<and>
    fst ` set ups \<subseteq> fst ` set ins \<longrightarrow>
      (\<exists>s'. add_registers s0 (ins @ ups) = Some (Inr (replicate (length (ins @ ups)) True, s')) \<and>
            length (free_entries s') = length raw - card (fst ` set ins)))"
proof (intro conjI impI)
  assume "reachable s \<and> lookup s rn \<noteq> None"
  then have wf: "well_formed s" and present: "lookup s rn \<noteq> None"
    using reachable_well_formed by auto
  from well_formed_add_existing [OF wf present, of rl v]
  show "\<exists>i. i \<in> set (row_entries s) \<and> regnum (entries s ! i) = rn \<and>
           add_register s rn rl v =
             Some (Inr (True, s\<lparr>entries := (entries s)[i := (entries s ! i)\<lparr>rule := rl, val := v\<rparr>]\<rparr>)) \<and>
           free_entries (s\<lparr>entries := (entries s)[i := (entries s ! i)\<lparr>rule := rl, val := v\<rparr>]\<rparr>) =
             free_entries s"
    by blast
next
  assume a: "dwarf_cfa_stack_ctor raw = Inr s0 \<and> card (fst ` set ins) \<le> length raw \<and>
    fst ` set ups \<subseteq> fst ` set ins"
  then have same: "fst ` set (ins @ ups) = fst ` set ins" by auto
  with a have "card (fst ` set (ins @ ups)) \<le> length raw" by simp
  from add_registers_from_ctor [OF _ this, of s0] a obtain s' where
    run: "add_registers s0 (ins @ ups) = Some (Inr (replicate (length (ins @ ups)) True, s'))"
    and wf: "well_formed s'" and len: "length (entries s') = length raw"
    and d: "dom (lookup s') = fst ` set (ins @ ups)" by blast
  from well_formed_capacity [OF wf] d same len
  have "length (free_entries s') = length raw - card (fst ` set ins)" by simp
  with run show "\<exists>s'. add_registers s0 (ins @ ups) = Some (Inr (replicate (length (ins @ ups)) True, s')) \<and>
            length (free_entries s') = length raw - card (fst ` set ins)" by blast
qed

text \<open>
  Register 5 is added and then updated: one of the two entries stays free.
\<close>

theorem update_in_place_keeps_free_list_witness:
  "reachable example_s1 \<and> lookup example_s1 5 \<noteq> None \<and>
   add_register example_s1 5 DWARF_CFA_REG_RULE_OFFSET 9 =
     Some (Inr (True, example_s1\<lparr>entries := (entries example_s1)
       [0 := (entries example_s1 ! 0)\<lparr>rule := DWARF_CFA_REG_RULE_OFFSET, val := 9\<rparr>]\<rparr>)) \<and>
   free_entries (example_s1\<lparr>entries := (entries example_s1)
       [0 := (entries example_s1 ! 0)\<lparr>rule := DWARF_CFA_REG_RULE_OFFSET, val := 9\<rparr>]\<rparr>) = [1] \<and>
   dwarf_cfa_stack_ctor example_raw = Inr example_s0 \<and>
   card (fst ` set [(5 :: 32 word, DWARF_CFA_REG_RULE_OFFSET, 8 :: int)]) \<le> length example_raw \<and>
   fst ` set [(5 :: 32 word, DWARF_CFA_REG_RULE_OFFSET, 9 :: int)] \<subseteq>
     fst ` set [(5 :: 32 word, DWARF_CFA_REG_RULE_OFFSET, 8 :: int)] \<and>
   (\<exists>s'. add_registers example_s0
            ([(5, DWARF_CFA_REG_RULE_OFFSET, 8)] @ [(5, DWARF_CFA_REG_RULE_OFFSET, 9)]) =
              Some (Inr ([True, True], s')) \<and>
         length (free_entries s') = 1)"
proof -
  note inst = update_in_place_keeps_free_list
    [where s = example_s1 and rn = 5 and rl = DWARF_CFA_REG_RULE_OFFSET and v = 9
       and raw = example_raw and ?s0.0 = example_s0
       and ins = "[(5, DWARF_CFA_REG_RULE_OFFSET, 8)]" and ups = "[(5, DWARF_CFA_REG_RULE_OFFSET, 9)]"]
  have len: "length example_raw = 2" by (simp add: example_raw_def)
  have h1: "reachable example_s1 \<and> lookup example_s1 5 \<noteq> None"
    by (simp add: example_reachable example_lookup)
  have h2: "dwarf_cfa_stack_ctor example_raw = Inr example_s0 \<and>
      card (fst ` set [(5 :: 32 word, DWARF_CFA_REG_RULE_OFFSET, 8 :: int)]) \<le> length example_raw \<and>
      fst ` set [(5 :: 32 word, DWARF_CFA_REG_RULE_OFFSET, 9 :: int)] \<subseteq>
        fst ` set [(5 :: 32 word, DWARF_CFA_REG_RULE_OFFSET, 8 :: int)]"
    by (simp add: example_ctor len)
  from inst h1 obtain i where i: "i \<in> set (row_entries example_s1)"
    and run: "add_register example_s1 5 DWARF_CFA_REG_RULE_OFFSET 9 =
      Some (Inr (True, example_s1\<lparr>entries := (entries example_s1)
        [i := (entries example_s1 ! i)\<lparr>rule := DWARF_CFA_REG_RULE_OFFSET, val := 9\<rparr>]\<rparr>))"
    and free: "free_entries (example_s1\<lparr>entries := (entries example_s1)
        [i := (entries example_s1 ! i)\<lparr>rule := DWARF_CFA_REG_RULE_OFFSET, val := 9\<rparr>]\<rparr>) =
      free_entries example_s1" by blast
  from i have i0: "i = 0" by (simp add: example_row)
  from inst h2 have "\<exists>s'. add_registers example_s0
            ([(5, DWARF_CFA_REG_RULE_OFFSET, 8)] @ [(5, DWARF_CFA_REG_RULE_OFFSET, 9)]) =
              Some (Inr ([True, True], s')) \<and>
         length (free_entries s') = 1"
    by (simp add: len)
  then show ?thesis using h1 h2 run free unfolding i0 by (simp add: example_free)
qed

text \<open>
  C4. Once the calls on a freshly constructed object have used as many distinct register
  numbers as the capacity, all of them having succeeded, \<open>add_register\<close> for one more
  register returns failure and leaves the object as it was; the registers added before
  are still found with their most recent rule and value, and the new one is not found.
\<close>

theorem exhaustion_fails_and_preserves:
  assumes "dwarf_cfa_stack_ctor raw = Inr s0"
    and "card (fst ` set calls) = length raw"
    and "rn \<notin> fst ` set calls"
  shows "\<exists>s. add_registers s0 calls = Some (Inr (replicate (length calls) True, s)) \<and>
           add_register s rn rl v = Some (Inr (False, s)) \<and>
           get_register_rule s rn = Some (Inr (None, s)) \<and>
           (\<forall>r\<in>fst ` set calls. \<exists>rl' v'. last_added calls r = Some (rl', v') \<and>
              get_register_rule s r = Some (Inr (Some (rl', v'), s)))"
proof -
  from assms(2) have "card (fst ` set calls) \<le> length raw" by simp
  from add_registers_from_ctor [OF assms(1) this] obtain s where
    run: "add_registers s0 calls = Some (Inr (replicate (length calls) True, s))"
    and wf: "well_formed s" and len: "length (entries s) = length raw"
    and l: "lookup s = last_added calls" and d: "dom (lookup s) = fst ` set calls" by blast
  from well_formed_capacity [OF wf] d len assms(2) have full: "free_entries s = []" by simp
  from assms(3) d have absent: "lookup s rn = None" by auto
  have "\<exists>rl' v'. last_added calls r = Some (rl', v') \<and> get_register_rule s r = Some (Inr (Some (rl', v'), s))"
    if "r \<in> fst ` set calls" for r
  proof -
    from that last_added_None_iff [of calls r] obtain rl' v' where "last_added calls r = Some (rl', v')"
      by (cases "last_added calls r") auto
    with well_formed_get [OF wf, of r] l show ?thesis by simp
  qed
  moreover have "get_register_rule s rn = Some (Inr (None, s))"
    using well_formed_get [OF wf, of rn] absent by simp
  ultimately show ?thesis using run well_formed_add_exhausted [OF wf absent full, of rl v] by blast
qed

text \<open>
  Capacity 2 holding registers 5 and 20: adding register 7 fails and changes nothing.
\<close>

theorem exhaustion_fails_and_preserves_witness:
  "dwarf_cfa_stack_ctor example_raw = Inr example_s0 \<and>
   card (fst ` set example_calls) = length example_raw \<and>
   7 \<notin> fst ` set example_calls \<and>
   add_registers example_s0 example_calls = Some (Inr ([True, True], example_s2)) \<and>
   add_register example_s2 7 DWARF_CFA_REG_RULE_OFFSET 4 = Some (Inr (False, example_s2)) \<and>
   get_register_rule example_s2 7 = Some (Inr (None, example_s2)) \<and>
   get_register_rule example_s2 5 = Some (Inr (Some (DWARF_CFA_REG_RULE_OFFSET, 8), example_s2)) \<and>
   get_register_rule example_s2 20 = Some (Inr (Some (DWARF_CFA_REG_RULE_OFFSET, 16), example_s2))"
proof -
  have full: "card (fst ` set example_calls) = length example_raw"
    by (simp add: example_card example_raw_def)
  have new: "7 \<notin> fst ` set example_calls" by (simp add: example_calls_def)
  from exhaustion_fails_and_preserves [OF example_ctor full new, of DWARF_CFA_REG_RULE_OFFSET 4]
  obtain s where
    run: "add_registers example_s0 example_calls = Some (Inr (replicate (length example_calls) True, s))"
    and fail: "add_register s 7 DWARF_CFA_REG_RULE_OFFSET 4 = Some (Inr (False, s))"
    and miss: "get_register_rule s 7 = Some (Inr (None, s))"
    and get: "\<forall>r\<in>fst ` set example_calls. \<exists>rl' v'. last_added example_calls r = Some (rl', v') \<and>
              get_register_rule s r = Some (Inr (Some (rl', v'), s))" by blast
  from run have s: "s = example_s2" by (simp add: example_add_registers)
  from get [rule_format, of 5] get [rule_format, of 20]
  have "get_register_rule example_s2 5 = Some (Inr (Some (DWARF_CFA_REG_RULE_OFFSET, 8), example_s2))"
    and "get_register_rule example_s2 20 = Some (Inr (Some (DWARF_CFA_REG_RULE_OFFSET, 16), example_s2))"
    by (simp_all add: s example_calls_def)
  then show ?thesis using example_ctor full new example_add_registers fail miss unfolding s by simp
qed

text \<open>
  C5. Two distinct registers of the same bucket, added one after the other with success,
  are both found afterwards, each with its own rule and value. A successful call for a
  register the row does not hold takes the head of the free list and puts it at the end
  of the register's bucket chain: the head of the bucket is the first entry of the
  extended chain, the other buckets keep their chains, and every other entry keeps its
  register number, rule and value.
\<close>

theorem colliding_registers_independent:
  "(reachable s \<and> r1 \<noteq> r2 \<and> bucket_of r1 = bucket_of r2 \<and>
    add_register s r1 rl1 v1 = Some (Inr (True, s1)) \<and>
    add_register s1 r2 rl2 v2 = Some (Inr (True, s2)) \<longrightarrow>
      get_register_rule s2 r1 = Some (Inr (Some (rl1, v1), s2)) \<and>
      get_register_rule s2 r2 = Some (Inr (Some (rl2, v2), s2))) \<and>
   (reachable s \<and> lookup s rn = None \<and> add_register s rn rl v = Some (Inr (True, s')) \<longrightarrow>
      (\<exists>e fl. free_entries s = e # fl \<and> free_entries s' = fl \<and>
         bucket_entries s' (bucket_of rn) = bucket_entries s (bucket_of rn) @ [e] \<and>
         table_stack s' ! table_pos s' ! bucket_of rn = Ptr (hd (bucket_entries s (bucket_of rn) @ [e])) \<and>
         (\<forall>b<table_buckets. b \<noteq> bucket_of rn \<longrightarrow> bucket_entries s' b = bucket_entries s b) \<and>
         (\<forall>i. i \<noteq> e \<longrightarrow> regnum (entries s' ! i) = regnum (entries s ! i) \<and>
            rule (entries s' ! i) = rule (entries s ! i) \<and> val (entries s' ! i) = val (entries s ! i))))"
proof (intro conjI impI)
  assume a: "reachable s \<and> r1 \<noteq> r2 \<and> bucket_of r1 = bucket_of r2 \<and>
    add_register s r1 rl1 v1 = Some (Inr (True, s1)) \<and>
    add_register s1 r2 rl2 v2 = Some (Inr (True, s2))"
  then have wf: "well_formed s" using reachable_well_formed by blast
  from a have run1: "add_register s r1 rl1 v1 = Some (Inr (True, s1))"
    and run2: "add_register s1 r2 rl2 v2 = Some (Inr (True, s2))" and ne: "r1 \<noteq> r2" by auto
  note e1 = well_formed_add_effect(1,2) [OF wf run1]
  note e2 = well_formed_add_effect(1,2) [OF e1(1) run2]
  have "lookup s2 r1 = Some (rl1, v1)" "lookup s2 r2 = Some (rl2, v2)"
    using e1(2) e2(2) ne by simp_all
  with well_formed_get [OF e2(1)]
  show "get_register_rule s2 r1 = Some (Inr (Some (rl1, v1), s2))"
    and "get_register_rule s2 r2 = Some (Inr (Some (rl2, v2), s2))" by simp_all
next
  assume a: "reachable s \<and> lookup s rn = None \<and> add_register s rn rl v = Some (Inr (True, s'))"
  then have wf: "well_formed s" and absent: "lookup s rn = None"
    and run: "add_register s rn rl v = Some (Inr (True, s'))"
    using reachable_well_formed by auto
  have "free_entries s \<noteq> []"
  proof
    assume "free_entries s = []"
    from well_formed_add_exhausted [OF wf absent this, of rl v] run show False by simp
  qed
  then obtain e fl where free: "free_entries s = e # fl" by (cases "free_entries s") auto
  from well_formed_add_fresh [OF wf absent free, of rl v] run
  have wf': "well_formed s'" and fl': "free_entries s' = fl"
    and bk: "bucket_entries s' (bucket_of rn) = bucket_entries s (bucket_of rn) @ [e]"
    and others: "\<forall>b<table_buckets. b \<noteq> bucket_of rn \<longrightarrow> bucket_entries s' b = bucket_entries s b"
    and old: "\<forall>i. i \<noteq> e \<longrightarrow> regnum (entries s' ! i) = regnum (entries s ! i) \<and>
            rule (entries s' ! i) = rule (entries s ! i) \<and> val (entries s' ! i) = val (entries s ! i)"
    by auto
  have "table_stack s' ! table_pos s' ! bucket_of rn = Ptr (hd (bucket_entries s (bucket_of rn) @ [e]))"
    using well_formed_bucket_head [OF wf' bucket_of_less, of rn] bk by simp
  with free fl' bk others old
  show "\<exists>e fl. free_entries s = e # fl \<and> free_entries s' = fl \<and>
         bucket_entries s' (bucket_of rn) = bucket_entries s (bucket_of rn) @ [e] \<and>
         table_stack s' ! table_pos s' ! bucket_of rn = Ptr (hd (bucket_entries s (bucket_of rn) @ [e])) \<and>
         (\<forall>b<table_buckets. b \<noteq> bucket_of rn \<longrightarrow> bucket_entries s' b = bucket_entries s b) \<and>
         (\<forall>i. i \<noteq> e \<longrightarrow> regnum (entries s' ! i) = regnum (entries s ! i) \<and>
            rule (entries s' ! i) = rule (entries s ! i) \<and> val (entries s' ! i) = val (entries s ! i))"
    by blast
qed

text \<open>
  Registers 5 and 20 share bucket 5; entry 1 is linked behind entry 0.
\<close>

theorem colliding_registers_independent_witness:
  "reachable example_s0 \<and> (5 :: 32 word) \<noteq> 20 \<and> bucket_of 5 = bucket_of 20 \<and>
   add_register example_s0 5 DWARF_CFA_REG_RULE_OFFSET 8 = Some (Inr (True, example_s1)) \<and>
   add_register example_s1 20 DWARF_CFA_REG_RULE_OFFSET 16 = Some (Inr (True, example_s2)) \<and>
   get_register_rule example_s2 5 = Some (Inr (Some (DWARF_CFA_REG_RULE_OFFSET, 8), example_s2)) \<and>
   get_register_rule example_s2 20 = Some (Inr (Some (DWARF_CFA_REG_RULE_OFFSET, 16), example_s2)) \<and>
   reachable example_s1 \<and> lookup example_s1 20 = None \<and>
   free_entries example_s1 = [1] \<and> free_entries example_s2 = [] \<and>
   bucket_entries example_s1 (bucket_of 20) = [0] \<and>
   bucket_entries example_s2 (bucket_of 20) = [0, 1] \<and>
   table_stack example_s2 ! table_pos example_s2 ! bucket_of 20 = Ptr 0"
proof -
  note first = colliding_registers_independent
    [where s = example_s0 and ?r1.0 = 5 and ?r2.0 = 20 and ?rl1.0 = DWARF_CFA_REG_RULE_OFFSET
       and ?v1.0 = 8 and ?s1.0 = example_s1 and ?rl2.0 = DWARF_CFA_REG_RULE_OFFSET and ?v2.0 = 16
       and ?s2.0 = example_s2]
  note second = colliding_registers_independent
    [where s = example_s1 and rn = 20 and rl = DWARF_CFA_REG_RULE_OFFSET and v = 16
       and s' = example_s2]
  have h1: "reachable example_s0 \<and> (5 :: 32 word) \<noteq> 20 \<and> bucket_of 5 = bucket_of 20 \<and>
      add_register example_s0 5 DWARF_CFA_REG_RULE_OFFSET 8 = Some (Inr (True, example_s1)) \<and>
      add_register example_s1 20 DWARF_CFA_REG_RULE_OFFSET 16 = Some (Inr (True, example_s2))"
    by (simp add: example_reachable example_add_5 example_add_20 bucket_of_def table_buckets_def)
  from first h1
  have g: "get_register_rule example_s2 5 = Some (Inr (Some (DWARF_CFA_REG_RULE_OFFSET, 8), example_s2)) \<and>
      get_register_rule example_s2 20 = Some (Inr (Some (DWARF_CFA_REG_RULE_OFFSET, 16), example_s2))"
    by blast
  have h2: "reachable example_s1 \<and> lookup example_s1 20 = None \<and>
      add_register example_s1 20 DWARF_CFA_REG_RULE_OFFSET 16 = Some (Inr (True, example_s2))"
    by (simp add: example_reachable example_lookup example_add_20)
  have b: "bucket_of 20 = 5" by (simp add: bucket_of_def table_buckets_def)
  from second h2 obtain e fl where
    free: "free_entries example_s1 = e # fl" "free_entries example_s2 = fl"
    and chain: "bucket_entries example_s2 (bucket_of 20) = bucket_entries example_s1 (bucket_of 20) @ [e]"
    and head: "table_stack example_s2 ! table_pos example_s2 ! bucket_of 20 =
      Ptr (hd (bucket_entries example_s1 (bucket_of 20) @ [e]))"
    by blast
  from free(1) have e: "e = 1" "fl = []" by (simp_all add: example_free)
  have old: "bucket_entries example_s1 (bucket_of 20) = [0]" by (simp add: b example_buckets)
  from chain head have "bucket_entries example_s2 (bucket_of 20) = [0, 1]"
    and "table_stack example_s2 ! table_pos example_s2 ! bucket_of 20 = Ptr 0"
    by (simp_all add: old e)
  with h1 g h2 free old show ?thesis by (simp add: e)
qed

text \<open>
  C6. In every reachable state the free list and the 15 bucket chains of the active row
  end in \<open>NULL\<close>, and together they hold each of the \<open>S\<close> entries of the pool exactly
  once; the lengths of the free list and of the chains add up to \<open>S\<close>.
\<close>

theorem pool_partition:
  assumes "reachable s"
  shows "is_chain (entries s) (free_list s) (free_entries s) \<and>
         (\<forall>b<table_buckets. is_chain (entries s) (table_stack s ! table_pos s ! b) (bucket_entries s b)) \<and>
         distinct (free_entries s @ row_entries s) \<and>
         set (free_entries s @ row_entries s) = {..<length (entries s)} \<and>
         length (free_entries s) + length (row_entries s) = length (entries s)"
proof -
  note inv = well_formedD [OF reachable_well_formed [OF assms]]
  have row: "row_entries s = concat (map (bucket_entries s) [0..<table_buckets])"
    by (simp add: row_entries_def)
  have "is_chain (entries s) (table_stack s ! table_pos s ! b) (bucket_entries s b)"
    if "b < table_buckets" for b
    using stack_invD(7) [OF inv that] that stack_invD(1) [OF inv] by simp
  then show ?thesis
    using stack_invD(6) [OF inv] stack_inv_distinct [OF inv] stack_inv_set [OF inv]
      stack_inv_length [OF inv] unfolding row by blast
qed

text \<open>
  The full pool of capacity 2: no free entry, entries 0 and 1 in bucket 5.
\<close>

theorem pool_partition_witness:
  "reachable example_s2 \<and>
   is_chain (entries example_s2) (free_list example_s2) (free_entries example_s2) \<and>
   is_chain (entries example_s2) (table_stack example_s2 ! table_pos example_s2 ! 5) (bucket_entries example_s2 5) \<and>
   distinct (free_entries example_s2 @ row_entries example_s2) \<and>
   set (free_entries example_s2 @ row_entries example_s2) = {..<length (entries example_s2)} \<and>
   length (free_entries example_s2) + length (row_entries example_s2) = length (entries example_s2) \<and>
   row_entries example_s2 = [0, 1]"
  using pool_partition [OF example_reachable(3)] example_reachable(3) example_row(3)
  by (simp add: table_buckets_def)

text \<open>
  C7. In every reachable state no two entries of the active row's bucket chains hold the
  same register number.
\<close>

theorem row_regnums_unique:
  assumes "reachable s"
  shows "distinct (map (\<lambda>i. regnum (entries s ! i)) (row_entries s))"
  using stack_inv_regnums_distinct [OF well_formedD [OF reachable_well_formed [OF assms]]]
  by (simp add: row_entries_def)

text \<open>
  The full pool of capacity 2 holds registers 5 and 20.
\<close>

theorem row_regnums_unique_witness:
  "reachable example_s2 \<and>
   distinct (map (\<lambda>i. regnum (entries example_s2 ! i)) (row_entries example_s2)) \<and>
   map (\<lambda>i. regnum (entries example_s2 ! i)) (row_entries example_s2) = [5, 20]"
  using row_regnums_unique [OF example_reachable(3)] example_reachable(3)
  by (simp add: example_row) (simp add: example_s2_def)

text \<open>
  C8. Whenever \<open>get_register_rule\<close> returns, the object is what it was before the call.
  In every reachable state it returns, and it reports not-found exactly when no entry of
  the active row holds the register.
\<close>

theorem get_register_rule_pure:
  "(get_register_rule s rn = Some (Inr (res, s')) \<longrightarrow> s' = s) \<and>
   (reachable s \<longrightarrow>
      (\<exists>r. get_register_rule s rn = Some (Inr (r, s)) \<and>
           (r = None \<longleftrightarrow> rn \<notin> (\<lambda>i. regnum (entries s ! i)) ` set (row_entries s))))"
proof (intro conjI impI)
  assume "get_register_rule s rn = Some (Inr (res, s'))"
  then show "s' = s" by (rule get_register_rule_frame)
next
  assume "reachable s"
  then have wf: "well_formed s" by (rule reachable_well_formed)
  have "lookup s rn = None \<longleftrightarrow> rn \<notin> (\<lambda>i. regnum (entries s ! i)) ` set (row_entries s)"
    by (simp add: lookup_def chain_lookup_None_iff chain_find_None_iff)
  with well_formed_get [OF wf, of rn]
  show "\<exists>r. get_register_rule s rn = Some (Inr (r, s)) \<and>
           (r = None \<longleftrightarrow> rn \<notin> (\<lambda>i. regnum (entries s ! i)) ` set (row_entries s))" by simp
qed

text \<open>
  Register 7 is not found in the full pool of capacity 2, which stays as it is.
\<close>

theorem get_register_rule_pure_witness:
  "get_register_rule example_s2 7 = Some (Inr (None, example_s2)) \<and>
   reachable example_s2 \<and>
   7 \<notin> (\<lambda>i. regnum (entries example_s2 ! i)) ` set (row_entries example_s2)"
proof -
  note inst = get_register_rule_pure [where s = example_s2 and rn = 7]
  from inst example_reachable(3) obtain r where
    r: "get_register_rule example_s2 7 = Some (Inr (r, example_s2))"
    and iff: "r = None \<longleftrightarrow> 7 \<notin> (\<lambda>i. regnum (entries example_s2 ! i)) ` set (row_entries example_s2)"
    by blast
  have "7 \<notin> (\<lambda>i. regnum (entries example_s2 ! i)) ` set (row_entries example_s2)"
    by (simp add: example_row) (simp add: example_s2_def)
  with iff r show ?thesis using example_reachable(3) by simp
qed

text \<open>
  C9. In every reachable state both search loops return after visiting at most \<open>S\<close>
  entries, with the result the unbounded loop has; \<open>add_register\<close> and
  \<open>get_register_rule\<close> return; and the chain they walk visits no entry twice and has at
  most \<open>S\<close> entries.
\<close>

theorem operations_terminate_within_capacity:
  assumes "reachable s"
  shows "(\<exists>r. add_register_walk_fuel (length (entries s)) (entries s) rn
                (table_stack s ! table_pos s ! bucket_of rn) = Some r \<and>
              add_register_walk (entries s) rn (table_stack s ! table_pos s ! bucket_of rn) = Some r) \<and>
         (\<exists>r. get_register_rule_walk_fuel (length (entries s)) (entries s) rn
                (table_stack s ! table_pos s ! bucket_of rn) = Some r \<and>
              get_register_rule_walk (entries s) rn (table_stack s ! table_pos s ! bucket_of rn) = Some r) \<and>
         (\<exists>ok s'. add_register s rn rl v = Some (Inr (ok, s'))) \<and>
         (\<exists>res. get_register_rule s rn = Some (Inr (res, s))) \<and>
         distinct (bucket_entries s (bucket_of rn)) \<and>
         length (bucket_entries s (bucket_of rn)) \<le> length (entries s)"
proof -
  note wf = reachable_well_formed [OF assms]
  note inv = well_formedD [OF wf]
  let ?b = "bucket_of rn"
  have ch: "is_chain (entries s) (table_stack s ! table_pos s ! ?b) (bucket_entries s ?b)"
    using stack_invD(7) [OF inv bucket_of_less, of rn] bucket_of_less [of rn] stack_invD(1) [OF inv]
    by simp
  have "distinct (concat (map (bucket_entries s) [0..<table_buckets]))"
    using stack_inv_distinct [OF inv] by simp
  from distinct_concat_nth [OF this, of ?b] have d: "distinct (bucket_entries s ?b)"
    using bucket_of_less [of rn] by simp
  have "set (bucket_entries s ?b) \<subseteq> {..<length (entries s)}"
    using chain_bounds [OF ch] by auto
  from card_mono [OF _ this] d have len: "length (bucket_entries s ?b) \<le> length (entries s)"
    by (simp add: distinct_card)
  from add_register_walk_fuel_chain [OF ch len, of rn] obtain r1 where
    r1: "add_register_walk_fuel (length (entries s)) (entries s) rn (table_stack s ! table_pos s ! ?b) = Some r1"
    by blast
  from get_register_rule_walk_fuel_chain [OF ch len, of rn] obtain r2 where
    r2: "get_register_rule_walk_fuel (length (entries s)) (entries s) rn (table_stack s ! table_pos s ! ?b) = Some r2"
    by blast
  from add_register_inv [OF inv, of rn rl v]
  have "\<exists>ok s'. add_register s rn rl v = Some (Inr (ok, s'))" by blast
  moreover have "\<exists>res. get_register_rule s rn = Some (Inr (res, s))"
    using well_formed_get [OF wf, of rn] by blast
  ultimately show ?thesis
    using r1 add_register_walk_fuel_sound [OF r1] r2 get_register_rule_walk_fuel_sound [OF r2] d len
    by blast
qed

text \<open>
  Searching register 20 in the full pool of capacity 2 ends at the second entry.
\<close>

theorem operations_terminate_within_capacity_witness:
  "reachable example_s2 \<and>
   add_register_walk_fuel (length (entries example_s2)) (entries example_s2) 20
     (table_stack example_s2 ! table_pos example_s2 ! bucket_of 20) = Some (Inr (Existing 1)) \<and>
   add_register_walk (entries example_s2) 20
     (table_stack example_s2 ! table_pos example_s2 ! bucket_of 20) = Some (Inr (Existing 1)) \<and>
   (\<exists>ok s'. add_register example_s2 20 DWARF_CFA_REG_RULE_OFFSET 3 = Some (Inr (ok, s'))) \<and>
   (\<exists>res. get_register_rule example_s2 20 = Some (Inr (res, example_s2))) \<and>
   length (bucket_entries example_s2 (bucket_of 20)) \<le> length (entries example_s2)"
proof -
  from operations_terminate_within_capacity [OF example_reachable(3), of 20 DWARF_CFA_REG_RULE_OFFSET 3]
  obtain r where
    f: "add_register_walk_fuel (length (entries example_s2)) (entries example_s2) 20
          (table_stack example_s2 ! table_pos example_s2 ! bucket_of 20) = Some r"
    and w: "add_register_walk (entries example_s2) 20
          (table_stack example_s2 ! table_pos example_s2 ! bucket_of 20) = Some r"
    and rest: "(\<exists>ok s'. add_register example_s2 20 DWARF_CFA_REG_RULE_OFFSET 3 = Some (Inr (ok, s'))) \<and>
      (\<exists>res. get_register_rule example_s2 20 = Some (Inr (res, example_s2))) \<and>
      length (bucket_entries example_s2 (bucket_of 20)) \<le> length (entries example_s2)"
    by blast
  have "add_register_walk_fuel (length (entries example_s2)) (entries example_s2) 20
          (table_stack example_s2 ! table_pos example_s2 ! bucket_of 20) = Some (Inr (Existing 1))"
    by code_simp
  with f have "r = Inr (Existing 1)" by simp
  with f w rest show ?thesis using example_reachable(3) by simp
qed

text \<open>
  C10. The constructor sets the current row to 0. \<open>add_register\<close> leaves the current
  row as it is and writes no row of the table but the current one; \<open>get_register_rule\<close>
  writes nothing. What either of them returns, and what \<open>add_register\<close> leaves in the
  pool, the free list and the current row, does not depend on the other rows. So in every
  reachable state the current row is 0 and the bucket heads of rows 1 to 5 are \<open>NULL\<close>.
\<close>

theorem only_first_row_used:
  "(dwarf_cfa_stack_ctor raw = Inr s0 \<longrightarrow> table_pos s0 = 0) \<and>
   (add_register s rn rl v = Some (Inr (ok, s')) \<longrightarrow>
      table_pos s' = table_pos s \<and> (\<forall>r. r \<noteq> table_pos s \<longrightarrow> table_stack s' ! r = table_stack s ! r)) \<and>
   (get_register_rule s rn = Some (Inr (res, s'')) \<longrightarrow> s'' = s) \<and>
   (table_pos t = table_pos s \<and> length (table_stack t) = length (table_stack s) \<and>
    table_stack t ! table_pos s = table_stack s ! table_pos s \<and>
    entries t = entries s \<and> free_list t = free_list s \<longrightarrow>
      map_option (map_sum id fst) (get_register_rule t rn) =
        map_option (map_sum id fst) (get_register_rule s rn) \<and>
      (add_register s rn rl v = Some (Inr (ok, s')) \<longrightarrow>
         (\<exists>t'. add_register t rn rl v = Some (Inr (ok, t')) \<and> entries t' = entries s' \<and>
               free_list t' = free_list s' \<and>
               table_stack t' ! table_pos s = table_stack s' ! table_pos s))) \<and>
   (reachable s \<longrightarrow>
      table_pos s = 0 \<and>
      (\<forall>r b. 1 \<le> r \<and> r < table_rows \<and> b < table_buckets \<longrightarrow> table_stack s ! r ! b = NULL))"
proof (intro conjI impI allI)
  assume "dwarf_cfa_stack_ctor raw = Inr s0"
  from stack_invD(1) [OF ctor_inv(1) [OF this]] show "table_pos s0 = 0" .
next
  assume "add_register s rn rl v = Some (Inr (ok, s'))"
  from add_register_frame [OF this] show "table_pos s' = table_pos s" by simp
next
  fix r assume run: "add_register s rn rl v = Some (Inr (ok, s'))" and r: "r \<noteq> table_pos s"
  from add_register_frame [OF run] r show "table_stack s' ! r = table_stack s ! r" by simp
next
  assume "get_register_rule s rn = Some (Inr (res, s''))"
  then show "s'' = s" by (rule get_register_rule_frame)
next
  assume "table_pos t = table_pos s \<and> length (table_stack t) = length (table_stack s) \<and>
    table_stack t ! table_pos s = table_stack s ! table_pos s \<and>
    entries t = entries s \<and> free_list t = free_list s"
  then show "map_option (map_sum id fst) (get_register_rule t rn) =
        map_option (map_sum id fst) (get_register_rule s rn)"
    by (intro get_register_rule_reads_current_row) simp_all
next
  assume a: "table_pos t = table_pos s \<and> length (table_stack t) = length (table_stack s) \<and>
    table_stack t ! table_pos s = table_stack s ! table_pos s \<and>
    entries t = entries s \<and> free_list t = free_list s"
    and run: "add_register s rn rl v = Some (Inr (ok, s'))"
  from a show "\<exists>t'. add_register t rn rl v = Some (Inr (ok, t')) \<and> entries t' = entries s' \<and>
               free_list t' = free_list s' \<and>
               table_stack t' ! table_pos s = table_stack s' ! table_pos s"
    by (intro add_register_reads_current_row [OF _ _ _ _ _ run]) simp_all
next
  assume "reachable s"
  from stack_invD(1) [OF well_formedD [OF reachable_well_formed [OF this]]] show "table_pos s = 0" .
next
  fix r b assume "reachable s" "1 \<le> r \<and> r < table_rows \<and> b < table_buckets"
  with stack_invD(4) [OF well_formedD [OF reachable_well_formed], of s r b]
  show "table_stack s ! r ! b = NULL" by simp
qed

text \<open>
  The example pool: the current row stays 0, row 3 stays empty, and filling row 3 with
  pointers changes nothing in what adding register 5 does.
\<close>

theorem only_first_row_used_witness:
  "dwarf_cfa_stack_ctor example_raw = Inr example_s0 \<and> table_pos example_s0 = 0 \<and>
   add_register example_s0 5 DWARF_CFA_REG_RULE_OFFSET 8 = Some (Inr (True, example_s1)) \<and>
   table_pos example_s1 = table_pos example_s0 \<and>
   table_stack example_s1 ! 3 = table_stack example_s0 ! 3 \<and>
   get_register_rule example_s0 5 = Some (Inr (None, example_s0)) \<and>
   table_pos (example_s0\<lparr>table_stack := (table_stack example_s0)[3 := replicate 15 (Ptr 1)]\<rparr>) =
     table_pos example_s0 \<and>
   table_stack (example_s0\<lparr>table_stack := (table_stack example_s0)[3 := replicate 15 (Ptr 1)]\<rparr>) ! 0 =
     table_stack example_s0 ! 0 \<and>
   (\<exists>t'. add_register (example_s0\<lparr>table_stack := (table_stack example_s0)[3 := replicate 15 (Ptr 1)]\<rparr>)
           5 DWARF_CFA_REG_RULE_OFFSET 8 = Some (Inr (True, t')) \<and>
         entries t' = entries example_s1 \<and> free_list t' = free_list example_s1 \<and>
         table_stack t' ! 0 = table_stack example_s1 ! 0) \<and>
   reachable example_s0 \<and> table_stack example_s0 ! 3 ! 4 = NULL"
proof -
  let ?t = "example_s0\<lparr>table_stack := (table_stack example_s0)[3 := replicate 15 (Ptr 1)]\<rparr>"
  note inst = only_first_row_used
    [where raw = example_raw and ?s0.0 = example_s0 and s = example_s0 and rn = 5
       and rl = DWARF_CFA_REG_RULE_OFFSET and v = 8 and ok = True and s' = example_s1
       and res = None and s'' = example_s0 and t = ?t]
  have pos0: "table_pos example_s0 = 0" by (simp add: example_s0_def)
  have get: "get_register_rule example_s0 5 = Some (Inr (None, example_s0))"
    using well_formed_get [OF reachable_well_formed [OF example_reachable(1)], of 5]
      ctor_well_formed(2) [OF example_ctor] by simp
  have same: "table_pos ?t = table_pos example_s0 \<and>
      length (table_stack ?t) = length (table_stack example_s0) \<and>
      table_stack ?t ! table_pos example_s0 = table_stack example_s0 ! table_pos example_s0 \<and>
      entries ?t = entries example_s0 \<and> free_list ?t = free_list example_s0"
    by (simp add: pos0)
  from inst example_add_5
  have frame: "table_pos example_s1 = table_pos example_s0 \<and>
      (\<forall>r. r \<noteq> table_pos example_s0 \<longrightarrow> table_stack example_s1 ! r = table_stack example_s0 ! r)"
    by blast
  then have row3: "table_stack example_s1 ! 3 = table_stack example_s0 ! 3" by (simp add: pos0)
  from inst same example_add_5
  have "\<exists>t'. add_register ?t 5 DWARF_CFA_REG_RULE_OFFSET 8 = Some (Inr (True, t')) \<and>
      entries t' = entries example_s1 \<and> free_list t' = free_list example_s1 \<and>
      table_stack t' ! table_pos example_s0 = table_stack example_s1 ! table_pos example_s0"
    by blast
  then have reads: "\<exists>t'. add_register ?t 5 DWARF_CFA_REG_RULE_OFFSET 8 = Some (Inr (True, t')) \<and>
      entries t' = entries example_s1 \<and> free_list t' = free_list example_s1 \<and>
      table_stack t' ! 0 = table_stack example_s1 ! 0"
    by (simp add: pos0)
  from inst example_reachable(1)
  have "\<forall>r b. 1 \<le> r \<and> r < table_rows \<and> b < table_buckets \<longrightarrow> table_stack example_s0 ! r ! b = NULL"
    by blast
  then have null: "table_stack example_s0 ! 3 ! 4 = NULL"
    by (simp add: table_rows_def table_buckets_def)
  from same have same0: "table_pos ?t = table_pos example_s0"
    "table_stack ?t ! 0 = table_stack example_s0 ! 0" by (simp_all add: pos0)
  show ?thesis
    using example_ctor pos0 example_add_5 frame row3 get same0 reads example_reachable(1) null
    by (intro conjI) simp_all
qed

end
